theory Spec2Isabelle
  imports Complex_Main "HOL-Library.Multiset" "HOL-Library.Log_Nat"
begin

section \<open>AfterImage: the rod puzzle's placement state\<close>

text \<open>
  The development follows the component \<^verbatim>\<open>App\<close> (the file that imports
  \<^verbatim>\<open>./types\<close>, \<^verbatim>\<open>./utils/puzzleEngine\<close> and \<^verbatim>\<open>./components/RodPiece\<close>) and
  \<^verbatim>\<open>types.ts\<close>.

  Numbers. Grid coordinates and extents are JavaScript numbers holding small integers, on
  which the arithmetic of doubles is exact; they are \<open>int\<close> here. Pixel quantities (pointer
  coordinates, the container's origin, the grab offset, the cell size) and the results of
  \<^verbatim>\<open>Math.random()\<close> are doubles. A finite double is a rational number, so they are \<open>rat\<close>
  here, and every subtraction, multiplication and division of the handlers on them is
  followed by \<open>fl\<close>, the rounding of the exact result to the nearest double (ties to the
  even significand), as IEEE 754 prescribes. \<^verbatim>\<open>Math.round\<close>, \<^verbatim>\<open>Math.floor\<close>, \<^verbatim>\<open>Math.min\<close> and
  \<^verbatim>\<open>Math.max\<close> are exact. Overflow to an infinity is not modelled: it needs pointer
  coordinates beyond \<open>10 ^ 308\<close>.

  Randomness. \<^verbatim>\<open>Math.random()\<close> is a stream \<open>random :: nat \<Rightarrow> rat\<close> of the values the
  calls return, in call order; its contract is a double \<open>r\<close> with \<open>0 \<le> r < 1\<close>. The call
  \<^verbatim>\<open>[...scattered].sort(() => Math.random() - 0.5)\<close> is a parameter
  \<open>sortRandom :: Piece list \<Rightarrow> Piece list\<close>: which order an engine's sort produces under an
  inconsistent comparator is implementation-defined, so only its contract (the result is a
  rearrangement of the argument) is used.

  React. Every handler runs against the latest committed state, and the updater passed to
  \<^verbatim>\<open>setPieces\<close> is applied to that state; a handler is a function from state to state.
  The window listeners of the drag effect are taken to be installed exactly when the
  effect's guard holds in that state.

  Not modelled: rendering, the upload and the hint request. A change of difficulty or of
  the source regenerates the puzzle through \<^verbatim>\<open>initPuzzle\<close>; the events below are those of
  one grid size.
\<close>

subsection \<open>types.ts\<close>

text \<open>
  \<^verbatim>\<open>interface Piece\<close>. The field \<^verbatim>\<open>id\<close> is \<open>pid\<close> here (\<open>id\<close> is HOL's identity).
\<close>

record Piece =
  pid :: string
  originalX :: int
  originalY :: int
  currentX :: int
  currentY :: int
  width :: int
  height :: int
  imageUrl :: "string option"
  videoUrl :: "string option"
  isLocked :: bool

datatype Difficulty = Easy | Medium | Hard

subsection \<open>Doubles\<close>

text \<open>
  Rounding to the nearest integer, a tie going to the even one.
\<close>

definition roundEven :: "rat \<Rightarrow> int" where
  "roundEven x =
     (let f = \<lfloor>x\<rfloor>; d = x - of_int f
      in if d < 1 / 2 then f else if 1 / 2 < d then f + 1 else if even f then f else f + 1)"

text \<open>
  For \<open>q > 0\<close>, the integer \<open>e\<close> with \<open>2 ^ e \<le> q < 2 ^ (e + 1)\<close>: the difference of the bit
  lengths of numerator and denominator, or one less.
\<close>

definition ilog2 :: "rat \<Rightarrow> int" where
  "ilog2 q =
     (let d = bitlen (fst (quotient_of q)) - bitlen (snd (quotient_of q))
      in if 2 powi d \<le> q then d else d - 1)"

text \<open>
  The double nearest to \<open>q\<close> (binary64: 53 significant bits, least exponent -1074). The
  unit in the last place is \<open>2 ^ u\<close>; \<open>q\<close> is rounded to a multiple of it.
\<close>

definition fl :: "rat \<Rightarrow> rat" where
  "fl q =
     (if q = 0 then 0
      else let u = max (ilog2 \<bar>q\<bar> - 52) (- 1074)
           in of_int (roundEven (q / 2 powi u)) * 2 powi u)"

subsection \<open>The component's state\<close>

text \<open>
  \<^verbatim>\<open>containerRef.current?.getBoundingClientRect()\<close>: only \<^verbatim>\<open>left\<close> and \<^verbatim>\<open>top\<close> are read.
\<close>

record DOMRect =
  rect_left :: rat
  rect_top :: rat

text \<open>
  The \<^verbatim>\<open>useState\<close> cells of \<^verbatim>\<open>App\<close> that the puzzle handlers read or write, and the rectangle
  of \<^verbatim>\<open>containerRef.current\<close> (\<open>None\<close> when the ref is null). \<^verbatim>\<open>offset\<close> is the pair
  \<open>offset_x\<close>, \<open>offset_y\<close>.
\<close>

record App =
  difficulty :: Difficulty
  pieces :: "Piece list"
  draggingId :: "string option"
  offset_x :: rat
  offset_y :: rat
  isSolved :: bool
  loading :: bool
  geminiHint :: "string option"
  containerSize :: rat
  containerRef :: "DOMRect option"

text \<open>Line 27: \<^verbatim>\<open>difficulty === Easy ? 6 : difficulty === Medium ? 10 : 16\<close>.\<close>

definition gridSize :: "App \<Rightarrow> int" where
  "gridSize st =
     (if difficulty st = Easy then 6 else if difficulty st = Medium then 10 else 16)"

text \<open>\<^verbatim>\<open>const cellSize = containerSize / gridSize\<close> (lines 68 and 150).\<close>

definition cellSize :: "App \<Rightarrow> rat" where
  "cellSize st = fl (containerSize st / of_int (gridSize st))"

text \<open>
  \<^verbatim>\<open>Math.round\<close>: the nearest integer, a tie going up; \<^verbatim>\<open>Math.floor\<close>. Both are exact on a
  double.
\<close>

definition Math_round :: "rat \<Rightarrow> int" where
  "Math_round x = \<lfloor>x + 1 / 2\<rfloor>"

definition Math_floor :: "rat \<Rightarrow> int" where
  "Math_floor x = \<lfloor>x\<rfloor>"

text \<open>The state of a freshly mounted component (lines 12 to 22).\<close>

definition mounted :: "DOMRect option \<Rightarrow> App" where
  "mounted r =
     \<lparr>difficulty = Medium, pieces = [], draggingId = None, offset_x = 0, offset_y = 0,
      isSolved = False, loading = False, geminiHint = None, containerSize = 600,
      containerRef = r\<rparr>"

subsection \<open>updateSize and initPuzzle\<close>

text \<open>
  Lines 31 to 37, with \<open>w\<close> the parent's \<^verbatim>\<open>offsetWidth\<close>, an integer.
\<close>

definition updateSize :: "int \<Rightarrow> App \<Rightarrow> App" where
  "updateSize w st = st\<lparr>containerSize := of_int (max 300 (min 600 (w - 32)))\<rparr>"

text \<open>
  Lines 46 to 55. \<^verbatim>\<open>generateRods\<close> and \<^verbatim>\<open>shufflePieces\<close> live in
  \<^verbatim>\<open>./utils/puzzleEngine\<close>, which is not among the sources; \<open>shuffled\<close> is the
  value of \<^verbatim>\<open>shufflePieces(generateRods(600, 600, gridSize, url, isVid), gridSize)\<close>.
  The four setters are the whole effect of the function.
\<close>

definition initPuzzle :: "Piece list \<Rightarrow> App \<Rightarrow> App" where
  "initPuzzle shuffled st =
     st\<lparr>pieces := shuffled, isSolved := False, geminiHint := None, loading := False\<rparr>"

subsection \<open>startDrag\<close>

text \<open>Lines 144 to 164.\<close>

definition startDrag :: "rat \<Rightarrow> rat \<Rightarrow> Piece \<Rightarrow> App \<Rightarrow> App" where
  "startDrag clientX clientY clickedPiece st =
     (if isLocked clickedPiece then st
      else case containerRef st of
        None \<Rightarrow> st
      | Some rect \<Rightarrow>
          let relativeX = fl (clientX - rect_left rect);
              relativeY = fl (clientY - rect_top rect);
              otherPieces = filter (\<lambda>p. pid p \<noteq> pid clickedPiece) (pieces st)
          in st\<lparr>pieces := otherPieces @ [clickedPiece],
                draggingId := Some (pid clickedPiece),
                offset_x := fl (relativeX - fl (of_int (currentX clickedPiece) * cellSize st)),
                offset_y := fl (relativeY - fl (of_int (currentY clickedPiece) * cellSize st))\<rparr>)"

subsection \<open>The drag effect: handleMove and handleEnd\<close>

text \<open>
  Line 63: the effect installs the window listeners only when \<^verbatim>\<open>draggingId\<close> is truthy
  (neither null nor the empty string) and the container ref is set.
\<close>

definition listening :: "App \<Rightarrow> bool" where
  "listening st =
     ((case draggingId st of None \<Rightarrow> False | Some d \<Rightarrow> d \<noteq> []) \<and> containerRef st \<noteq> None)"

text \<open>Line 372: \<^verbatim>\<open>isDragging={draggingId === piece.id}\<close>.\<close>

definition isDragging :: "App \<Rightarrow> Piece \<Rightarrow> bool" where
  "isDragging st piece = (draggingId st = Some (pid piece))"

text \<open>
  Lines 75 to 81: the new cell of the dragged piece, with \<open>dx\<close> and \<open>dy\<close> the values of
  \<^verbatim>\<open>relativeX - offset.x\<close> and \<^verbatim>\<open>relativeY - offset.y\<close>.
\<close>

definition movePiece :: "int \<Rightarrow> rat \<Rightarrow> rat \<Rightarrow> rat \<Rightarrow> Piece \<Rightarrow> Piece" where
  "movePiece g cs dx dy p =
     (let nextX = Math_round (fl (dx / cs));
          nextY = Math_round (fl (dy / cs));
          nextX' = max 0 (min (g - width p) nextX);
          nextY' = max 0 (min (g - height p) nextY)
      in p\<lparr>currentX := nextX', currentY := nextY'\<rparr>)"

text \<open>Lines 65 to 85.\<close>

definition handleMove :: "rat \<Rightarrow> rat \<Rightarrow> App \<Rightarrow> App" where
  "handleMove clientX clientY st =
     (case containerRef st of
        None \<Rightarrow> st
      | Some rect \<Rightarrow>
          let relativeX = fl (clientX - rect_left rect);
              relativeY = fl (clientY - rect_top rect)
          in st\<lparr>pieces :=
                  map (\<lambda>p. if Some (pid p) = draggingId st
                            then movePiece (gridSize st) (cellSize st)
                                   (fl (relativeX - offset_x st)) (fl (relativeY - offset_y st)) p
                            else p)
                      (pieces st)\<rparr>)"

text \<open>
  Lines 95 to 97: \<^verbatim>\<open>[...updated.filter(p => p.isLocked), ...updated.filter(p => !p.isLocked)]\<close>.
\<close>

definition lockedFirst :: "Piece list \<Rightarrow> Piece list" where
  "lockedFirst ps = filter isLocked ps @ filter (\<lambda>p. \<not> isLocked p) ps"

text \<open>Lines 87 to 107.\<close>

definition lockDragged :: "App \<Rightarrow> Piece list" where
  "lockDragged st =
     map (\<lambda>p. if Some (pid p) = draggingId st then p\<lparr>isLocked := True\<rparr> else p) (pieces st)"

definition atHome :: "Piece \<Rightarrow> bool" where
  "atHome p = (currentX p = originalX p \<and> currentY p = originalY p)"

definition handleEnd :: "App \<Rightarrow> App" where
  "handleEnd st =
     (case find (\<lambda>p. Some (pid p) = draggingId st) (pieces st) of
        Some draggedPiece \<Rightarrow>
          if atHome draggedPiece then
            let updated = lockDragged st;
                locked = filter isLocked updated;
                unlocked = filter (\<lambda>p. \<not> isLocked p) updated;
                final = locked @ unlocked
            in st\<lparr>pieces := final,
                  isSolved := (if list_all isLocked final then True else isSolved st),
                  draggingId := None\<rparr>
          else st\<lparr>draggingId := None\<rparr>
      | None \<Rightarrow> st\<lparr>draggingId := None\<rparr>)"

text \<open>
  The window events: \<^verbatim>\<open>mousemove\<close>/\<^verbatim>\<open>touchmove\<close> and \<^verbatim>\<open>mouseup\<close>/\<^verbatim>\<open>touchend\<close> reach the
  handlers only while the listeners are installed.
\<close>

definition pointerMove :: "rat \<Rightarrow> rat \<Rightarrow> App \<Rightarrow> App" where
  "pointerMove clientX clientY st = (if listening st then handleMove clientX clientY st else st)"

definition pointerUp :: "App \<Rightarrow> App" where
  "pointerUp st = (if listening st then handleEnd st else st)"

subsection \<open>scatterPieces\<close>

text \<open>
  Lines 177 to 189. The \<open>k\<close>-th unlocked piece takes the draws \<open>2 * k\<close> (for \<^verbatim>\<open>currentX\<close>)
  and \<open>2 * k + 1\<close> (for \<^verbatim>\<open>currentY\<close>) of the stream, in the order the object literal evaluates
  them.
\<close>

definition scatterOne :: "int \<Rightarrow> (nat \<Rightarrow> rat) \<Rightarrow> nat \<times> Piece \<Rightarrow> Piece" where
  "scatterOne g random kp =
     (case kp of (k, p) \<Rightarrow>
        p\<lparr>currentX := Math_floor (fl (random (2 * k) * of_int (g - width p + 1))),
          currentY := Math_floor (fl (random (2 * k + 1) * of_int (g - height p + 1)))\<rparr>)"

definition scatterPieces :: "(nat \<Rightarrow> rat) \<Rightarrow> (Piece list \<Rightarrow> Piece list) \<Rightarrow> App \<Rightarrow> App" where
  "scatterPieces random sortRandom st =
     (let prev = pieces st;
          locked = filter isLocked prev;
          unlocked = filter (\<lambda>p. \<not> isLocked p) prev;
          scattered = map (scatterOne (gridSize st) random) (enumerate 0 unlocked);
          scatteredShuffled = sortRandom scattered
      in st\<lparr>pieces := locked @ scatteredShuffled\<rparr>)"

text \<open>
  The contracts of \<^verbatim>\<open>Math.random\<close> (a double, at least 0 and less than 1) and of
  \<^verbatim>\<open>Array.prototype.sort\<close>.
\<close>

definition unitRandom :: "(nat \<Rightarrow> rat) \<Rightarrow> bool" where
  "unitRandom random = (\<forall>n. 0 \<le> random n \<and> random n < 1 \<and> fl (random n) = random n)"

definition rearranges :: "(Piece list \<Rightarrow> Piece list) \<Rightarrow> bool" where
  "rearranges sortRandom = (\<forall>xs. mset (sortRandom xs) = mset xs)"

subsection \<open>Events\<close>

text \<open>
  The inputs of the placement state machine. A drag-start comes from one of the rendered
  pieces (lines 365 to 375 render \<^verbatim>\<open>pieces.map(piece => <RodPiece piece={piece} ... />)\<close>),
  so it names the piece by its position in the current sequence; the mouse and the touch
  wrappers (lines 166 to 175) both end in \<^verbatim>\<open>startDrag\<close>.
\<close>

datatype Event =
    DragStart rat rat nat
  | DragMove rat rat
  | DragEnd
  | Scatter "nat \<Rightarrow> rat" "Piece list \<Rightarrow> Piece list"
  | Resize int
  | Reset "Piece list"

fun step :: "Event \<Rightarrow> App \<Rightarrow> App" where
  "step (DragStart clientX clientY i) st =
     (if i < length (pieces st) then startDrag clientX clientY (pieces st ! i) st else st)"
| "step (DragMove clientX clientY) st = pointerMove clientX clientY st"
| "step DragEnd st = pointerUp st"
| "step (Scatter random sortRandom) st = scatterPieces random sortRandom st"
| "step (Resize w) st = updateSize w st"
| "step (Reset shuffled) st = initPuzzle shuffled st"

fun run :: "Event list \<Rightarrow> App \<Rightarrow> App" where
  "run [] st = st"
| "run (e # es) st = run es (step e st)"

text \<open>
  What an event may carry: the library contracts for a scatter, and for a reset the
  guarantee of the generator and the shuffler (identifiers unique, every piece unlocked, at
  least one piece).
\<close>

fun wellFormed :: "Event \<Rightarrow> bool" where
  "wellFormed (Scatter random sortRandom) = (unitRandom random \<and> rearranges sortRandom)"
| "wellFormed (Reset shuffled) =
     (shuffled \<noteq> [] \<and> distinct (map pid shuffled) \<and> list_all (\<lambda>p. \<not> isLocked p) shuffled)"
| "wellFormed _ = True"

fun withinInstance :: "Event \<Rightarrow> bool" where
  "withinInstance (Reset shuffled) = False"
| "withinInstance _ = True"

definition instanceRun :: "Event list \<Rightarrow> bool" where
  "instanceRun es = list_all (\<lambda>e. wellFormed e \<and> withinInstance e) es"

definition wellFormedRun :: "Event list \<Rightarrow> bool" where
  "wellFormedRun es = list_all wellFormed es"

subsection \<open>State predicates\<close>

definition inGrid :: "int \<Rightarrow> Piece \<Rightarrow> bool" where
  "inGrid g p =
     (0 \<le> currentX p \<and> currentX p \<le> g - width p \<and> 0 \<le> currentY p \<and> currentY p \<le> g - height p)"

definition allInGrid :: "App \<Rightarrow> bool" where
  "allInGrid st = list_all (inGrid (gridSize st)) (pieces st)"

text \<open>
  No unlocked piece comes before a locked one.
\<close>

fun lockedPrecede :: "Piece list \<Rightarrow> bool" where
  "lockedPrecede [] = True"
| "lockedPrecede (p # ps) = ((isLocked p \<or> list_all (\<lambda>q. \<not> isLocked q) ps) \<and> lockedPrecede ps)"

subsection \<open>Invariants of the state machine\<close>

text \<open>What generation fixes for a piece: its identifier, its home cell and its extent.\<close>

definition fixedPart :: "Piece \<Rightarrow> string \<times> int \<times> int \<times> int \<times> int" where
  "fixedPart p = (pid p, originalX p, originalY p, width p, height p)"

definition idsDistinct :: "App \<Rightarrow> bool" where
  "idsDistinct st = distinct (map pid (pieces st))"

definition dragUnlocked :: "App \<Rightarrow> bool" where
  "dragUnlocked st = list_all (\<lambda>p. Some (pid p) = draggingId st \<longrightarrow> \<not> isLocked p) (pieces st)"

definition solvedIff :: "App \<Rightarrow> bool" where
  "solvedIff st = (isSolved st \<longleftrightarrow> pieces st \<noteq> [] \<and> list_all isLocked (pieces st))"

subsection \<open>The Layout Shuffler's placement, from the specification\<close>

text \<open>
  Modelled from the spec: the placement of one piece by the Layout Shuffler
  (\<^verbatim>\<open>shufflePieces\<close> of \<^verbatim>\<open>./utils/puzzleEngine\<close> is not among the sources). Section 4.2:
  pick a uniformly random valid top-left cell in
  \<open>[0, gridSize - width] \<times> [0, gridSize - height]\<close>; if a candidate placement equals the
  home position, resample, a bounded number of attempts, before accepting it. Section 9
  gives the bound as 10 attempts, after which the home placement is accepted. The \<open>k\<close>-th
  candidate takes the draws \<open>2 * k\<close> and \<open>2 * k + 1\<close> of the piece's stream;
  \<open>placeAvoidingHome n\<close> may still resample \<open>n\<close> times.
\<close>

definition candidate :: "int \<Rightarrow> (nat \<Rightarrow> rat) \<Rightarrow> Piece \<Rightarrow> nat \<Rightarrow> int \<times> int" where
  "candidate g random p k =
     (Math_floor (fl (random (2 * k) * of_int (g - width p + 1))),
      Math_floor (fl (random (2 * k + 1) * of_int (g - height p + 1))))"

fun placeAvoidingHome :: "nat \<Rightarrow> int \<Rightarrow> (nat \<Rightarrow> rat) \<Rightarrow> Piece \<Rightarrow> nat \<Rightarrow> int \<times> int" where
  "placeAvoidingHome 0 g random p k = candidate g random p k"
| "placeAvoidingHome (Suc n) g random p k =
     (if candidate g random p k = (originalX p, originalY p)
      then placeAvoidingHome n g random p (Suc k)
      else candidate g random p k)"

definition shufflerPlace :: "int \<Rightarrow> (nat \<Rightarrow> rat) \<Rightarrow> Piece \<Rightarrow> int \<times> int" where
  "shufflerPlace g random p = placeAvoidingHome 9 g random p 0"

subsection \<open>Boards for the examples\<close>

text \<open>
  An Easy grid (6 by 6) cut into two rods, both away from home, in a container of 600
  pixels whose corner is the origin of the client coordinates: a cell is 100 pixels wide.
\<close>

definition rodA :: Piece where
  "rodA = \<lparr>pid = ''rod-0-0'', originalX = 0, originalY = 0, currentX = 3, currentY = 0,
            width = 1, height = 6, imageUrl = None, videoUrl = None, isLocked = False\<rparr>"

definition rodB :: Piece where
  "rodB = \<lparr>pid = ''rod-1-0'', originalX = 1, originalY = 0, currentX = 0, currentY = 0,
            width = 5, height = 6, imageUrl = None, videoUrl = None, isLocked = False\<rparr>"

definition easyBoard :: App where
  "easyBoard =
     \<lparr>difficulty = Easy, pieces = [rodA, rodB], draggingId = None, offset_x = 0, offset_y = 0,
      isSolved = False, loading = False, geminiHint = None, containerSize = 600,
      containerRef = Some \<lparr>rect_left = 0, rect_top = 0\<rparr>\<rparr>"

text \<open>The small board after rod A has been dragged home and released.\<close>

definition lockedBoard :: App where
  "lockedBoard =
     \<lparr>difficulty = Easy, pieces = [rodA\<lparr>currentX := 0, isLocked := True\<rparr>, rodB],
      draggingId = None, offset_x = 50, offset_y = 50,
      isSolved = False, loading = False, geminiHint = None, containerSize = 600,
      containerRef = Some \<lparr>rect_left = 0, rect_top = 0\<rparr>\<rparr>"

text \<open>
  A Medium grid (10 by 10) with two rods of its fifth row; a cell is 60 pixels wide.
\<close>

definition rodC :: Piece where
  "rodC = \<lparr>pid = ''rod-0-4'', originalX = 0, originalY = 4, currentX = 2, currentY = 4,
            width = 4, height = 1, imageUrl = None, videoUrl = None, isLocked = False\<rparr>"

definition rodD :: Piece where
  "rodD = \<lparr>pid = ''rod-4-4'', originalX = 4, originalY = 4, currentX = 0, currentY = 0,
            width = 6, height = 1, imageUrl = None, videoUrl = None, isLocked = False\<rparr>"

definition mediumBoard :: App where
  "mediumBoard =
     \<lparr>difficulty = Medium, pieces = [rodC, rodD], draggingId = None, offset_x = 0, offset_y = 0,
      isSolved = False, loading = False, geminiHint = None, containerSize = 600,
      containerRef = Some \<lparr>rect_left = 0, rect_top = 0\<rparr>\<rparr>"

section \<open>Properties\<close>

lemmas fixture_defs = easyBoard_def rodA_def rodB_def

lemmas fixture_defs2 = fixture_defs mediumBoard_def rodC_def rodD_def

lemmas handler_defs = startDrag_def handleMove_def handleEnd_def scatterPieces_def
  pointerMove_def pointerUp_def listening_def movePiece_def scatterOne_def lockDragged_def
  lockedFirst_def atHome_def gridSize_def cellSize_def Math_round_def Math_floor_def
  initPuzzle_def updateSize_def

subsection \<open>Rounding to a double\<close>

lemma roundEven_of_int [simp]: "roundEven (of_int k) = k"
  by (simp add: roundEven_def)

lemma roundEven_nonneg: "0 \<le> x \<Longrightarrow> 0 \<le> roundEven x"
  by (auto simp: roundEven_def Let_def)

lemma roundEven_le: "of_int (roundEven x) \<le> x + 1 / 2"
proof -
  define f where "f = \<lfloor>x\<rfloor>"
  have fx: "rat_of_int f \<le> x" by (simp add: f_def)
  have "roundEven x =
      (if x - of_int f < 1 / 2 then f else if 1 / 2 < x - of_int f then f + 1
       else if even f then f else f + 1)"
    by (simp add: roundEven_def f_def Let_def)
  then show ?thesis using fx by (auto split: if_splits)
qed

lemma quotient_pos:
  assumes "0 < q"
  shows "0 < fst (quotient_of q) \<and> 0 < snd (quotient_of q)
       \<and> q = of_int (fst (quotient_of q)) / of_int (snd (quotient_of q))"
proof -
  obtain a b where ab: "quotient_of q = (a, b)" by (cases "quotient_of q")
  then have b: "0 < b" by (rule quotient_of_denom_pos)
  have q: "q = of_int a / of_int b" using ab by (rule quotient_of_div)
  have "0 < a" using assms b q by (simp add: zero_less_divide_iff)
  with b q ab show ?thesis by simp
qed

lemma ilog2_le:
  assumes "0 < q" shows "2 powi (ilog2 q) \<le> q"
proof -
  let ?a = "fst (quotient_of q)" and ?b = "snd (quotient_of q)"
  let ?d = "bitlen ?a - bitlen ?b"
  from quotient_pos[OF assms] have a: "0 < ?a" and b: "0 < ?b"
    and q: "q = of_int ?a / of_int ?b" by simp_all
  have la: "1 \<le> bitlen ?a" using a by (simp add: bitlen_alt_def)
  have lb: "1 \<le> bitlen ?b" using b by (simp add: bitlen_alt_def)
  have "(2::int) ^ nat (bitlen ?a - 1) \<le> ?a" using bitlen_bounds[OF a] by simp
  then have "(2::rat) ^ nat (bitlen ?a - 1) \<le> of_int ?a"
    by (metis of_int_le_iff of_int_numeral of_int_power)
  then have A: "(2::rat) powi (bitlen ?a - 1) \<le> of_int ?a"
    using la by (simp add: power_int_def)
  have "?b < (2::int) ^ nat (bitlen ?b)" using bitlen_bounds[OF b] by simp
  then have "of_int ?b < (2::rat) ^ nat (bitlen ?b)"
    by (metis of_int_less_iff of_int_numeral of_int_power)
  then have B: "of_int ?b \<le> (2::rat) powi (bitlen ?b)"
    using lb by (simp add: power_int_def)
  have "(2::rat) powi (?d - 1) = 2 powi (bitlen ?a - 1) / 2 powi (bitlen ?b)"
    by (simp add: power_int_diff)
  also have "\<dots> \<le> of_int ?a / 2 powi (bitlen ?b)"
    using A by (simp add: divide_right_mono)
  also have "\<dots> \<le> of_int ?a / of_int ?b"
    using B a b by (simp add: divide_left_mono)
  finally have "(2::rat) powi (?d - 1) \<le> q" using q by simp
  then show ?thesis by (simp add: ilog2_def Let_def)
qed

lemma fl_0 [simp]: "fl 0 = 0"
  by (simp add: fl_def)

lemma fl_nonneg:
  assumes "0 \<le> q" shows "0 \<le> fl q"
proof (cases "q = 0")
  case True then show ?thesis by simp
next
  case False
  let ?s = "(2::rat) powi (max (ilog2 \<bar>q\<bar> - 52) (- 1074))"
  have s: "0 < ?s" by simp
  then have "0 \<le> q / ?s" using assms by simp
  then have "0 \<le> roundEven (q / ?s)" by (rule roundEven_nonneg)
  then show ?thesis using False s by (simp add: fl_def Let_def)
qed

lemma fl_upper:
  assumes "0 < q"
  shows "fl q \<le> q + max (q / 2 ^ 53) (1 / 2 ^ 1075)"
proof -
  let ?e = "ilog2 \<bar>q\<bar>"
  let ?u = "max (?e - 52) (- 1074)"
  let ?s = "(2::rat) powi ?u"
  have s: "0 < ?s" by simp
  have "fl q = of_int (roundEven (q / ?s)) * ?s"
    using assms by (simp add: fl_def Let_def)
  also have "\<dots> \<le> (q / ?s + 1 / 2) * ?s"
    using roundEven_le[of "q / ?s"] s by (simp add: mult_right_mono)
  also have "\<dots> = q + ?s / 2" using s by (simp add: field_simps)
  finally have step: "fl q \<le> q + ?s / 2" .
  have e: "2 powi ?e \<le> q" using ilog2_le[of "\<bar>q\<bar>"] assms by simp
  have "?s / 2 \<le> max (q / 2 ^ 53) (1 / 2 ^ 1075)"
  proof (cases "- 1074 \<le> ?e - 52")
    case True
    then have "?u = ?e - 52" by linarith
    then have "?s = 2 powi (?e - 52)" by (simp only:)
    then have "?s / 2 = 2 powi ?e / 2 ^ 53" by (simp add: power_int_diff)
    also have "\<dots> \<le> q / 2 ^ 53" using e by (simp add: divide_right_mono)
    finally show ?thesis by simp
  next
    case False
    then have "?u = - 1074" by linarith
    then have "?s = 2 powi (- 1074)" by (simp only:)
    then have "?s / 2 = 1 / 2 ^ 1075" by (simp add: power_int_minus_divide)
    then show ?thesis by simp
  qed
  with step show ?thesis by linarith
qed

lemma fl_of_int:
  assumes "\<bar>n\<bar> < 2 ^ 53" shows "fl (of_int n) = of_int n"
proof (cases "n = 0")
  case True then show ?thesis by simp
next
  case False
  let ?q = "of_int n :: rat"
  let ?e = "ilog2 \<bar>?q\<bar>"
  let ?u = "max (?e - 52) (- 1074)"
  have "2 powi ?e \<le> \<bar>?q\<bar>" using False by (intro ilog2_le) simp
  also have "\<bar>?q\<bar> < 2 ^ 53" using assms
    by (metis of_int_abs of_int_less_iff of_int_numeral of_int_power)
  finally have lt: "(2::rat) powi ?e < 2 powi 53" by simp
  have "?e < 53"
  proof (rule ccontr)
    assume "\<not> ?e < 53"
    then have "(2::rat) powi 53 \<le> 2 powi ?e" by (intro power_int_increasing) simp_all
    with lt show False by simp
  qed
  then have u: "?u \<le> 0" by simp
  then obtain k where k: "?u = - int k" by (metis neg_le_0_iff_le nonneg_int_cases minus_minus)
  have "?q / 2 powi ?u = of_int (n * 2 ^ k)"
    by (simp add: k power_int_minus field_simps)
  then have "roundEven (?q / 2 powi ?u) = n * 2 ^ k" by (simp only: roundEven_of_int)
  then have "of_int (roundEven (?q / 2 powi ?u)) * 2 powi ?u = ?q"
    by (simp add: k power_int_minus field_simps)
  then show ?thesis using False by (simp add: fl_def Let_def)
qed

lemma fl_numeral [simp]: "numeral k < (2::int) ^ 53 \<Longrightarrow> fl (numeral k) = numeral k"
  using fl_of_int[of "numeral k"] by simp

lemma fl_neg_numeral [simp]: "numeral k < (2::int) ^ 53 \<Longrightarrow> fl (- numeral k) = - numeral k"
  using fl_of_int[of "- numeral k"] by simp

lemma fl_1 [simp]: "fl 1 = 1"
  using fl_of_int[of 1] by simp

lemma fl_neg_1 [simp]: "fl (- 1) = - 1"
  using fl_of_int[of "- 1"] by simp

lemma floor_fl_unit_mult:
  assumes "0 \<le> r" "r \<le> 1 - 1 / 2 ^ 53" "1 \<le> n"
  shows "0 \<le> \<lfloor>fl (r * of_int n)\<rfloor> \<and> \<lfloor>fl (r * of_int n)\<rfloor> \<le> n - 1"
proof -
  let ?q = "r * of_int n"
  have n1: "(1::rat) \<le> of_int n" using assms(3) by simp
  have q0: "0 \<le> ?q" using assms(1) n1 by simp
  have lo: "0 \<le> \<lfloor>fl ?q\<rfloor>" using fl_nonneg[OF q0] by simp
  have "fl ?q < of_int n"
  proof (cases "?q = 0")
    case True then show ?thesis using n1 by simp
  next
    case False
    with q0 have qpos: "0 < ?q" by (metis order_less_le)
    have qle: "?q \<le> (1 - 1 / 2 ^ 53) * of_int n"
      using assms(2) n1 by (simp add: mult_right_mono)
    have "?q + max (?q / 2 ^ 53) (1 / 2 ^ 1075) < of_int n"
    proof (cases "1 / 2 ^ 1075 \<le> ?q / 2 ^ 53")
      case True
      have "?q + ?q / 2 ^ 53 = ?q * (1 + 1 / 2 ^ 53)" by (simp add: field_simps)
      also have "\<dots> \<le> ((1 - 1 / 2 ^ 53) * of_int n) * (1 + 1 / 2 ^ 53)"
        using qle by (simp add: mult_right_mono)
      also have "\<dots> = rat_of_int n * ((1 - 1 / 2 ^ 53) * (1 + 1 / 2 ^ 53))" by simp
      also have "\<dots> < rat_of_int n * 1"
        using n1 by (intro mult_strict_left_mono) simp_all
      finally show ?thesis using True by (simp add: max_def)
    next
      case False
      have "(1 - 1 / 2 ^ 53) * rat_of_int n = of_int n - of_int n / 2 ^ 53"
        by (simp add: field_simps)
      also have "\<dots> \<le> of_int n - 1 / 2 ^ 53" using n1 by (simp add: divide_right_mono)
      finally have "(1 - 1 / 2 ^ 53) * rat_of_int n \<le> of_int n - 1 / 2 ^ 53" .
      with qle have "?q \<le> of_int n - 1 / 2 ^ 53" by (rule order_trans)
      moreover have "(1::rat) / 2 ^ 1075 < 1 / 2 ^ 53" by simp
      ultimately have "?q + 1 / 2 ^ 1075 < of_int n" by linarith
      then show ?thesis using False by (simp add: max_def)
    qed
    with fl_upper[OF qpos] show ?thesis by linarith
  qed
  then have "\<lfloor>fl ?q\<rfloor> < n" by (simp add: floor_less_iff)
  with lo show ?thesis by simp
qed


lemma roundEven_ge: "x - 1 / 2 \<le> of_int (roundEven x)"
proof -
  define f where "f = \<lfloor>x\<rfloor>"
  have fx: "x < rat_of_int f + 1" unfolding f_def by linarith
  have "roundEven x =
      (if x - of_int f < 1 / 2 then f else if 1 / 2 < x - of_int f then f + 1
       else if even f then f else f + 1)"
    by (simp add: roundEven_def f_def Let_def)
  then show ?thesis using fx by (auto split: if_splits)
qed

lemma ilog2_gt:
  assumes "0 < q" shows "q < 2 powi (ilog2 q + 1)"
proof -
  let ?a = "fst (quotient_of q)" and ?b = "snd (quotient_of q)"
  let ?d = "bitlen ?a - bitlen ?b"
  from quotient_pos[OF assms] have a: "0 < ?a" and b: "0 < ?b"
    and q: "q = of_int ?a / of_int ?b" by simp_all
  have la: "1 \<le> bitlen ?a" using a by (simp add: bitlen_alt_def)
  have lb: "1 \<le> bitlen ?b" using b by (simp add: bitlen_alt_def)
  have "?a < (2::int) ^ nat (bitlen ?a)" using bitlen_bounds[OF a] by simp
  then have "of_int ?a < (2::rat) ^ nat (bitlen ?a)"
    by (metis of_int_less_iff of_int_numeral of_int_power)
  then have A: "of_int ?a < (2::rat) powi (bitlen ?a)"
    using la by (simp add: power_int_def)
  have "(2::int) ^ nat (bitlen ?b - 1) \<le> ?b" using bitlen_bounds[OF b] by simp
  then have "(2::rat) ^ nat (bitlen ?b - 1) \<le> of_int ?b"
    by (metis of_int_le_iff of_int_numeral of_int_power)
  then have B: "(2::rat) powi (bitlen ?b - 1) \<le> of_int ?b"
    using lb by (simp add: power_int_def)
  have bpos: "(0::rat) < 2 powi (bitlen ?b - 1)" by simp
  have a': "(0::rat) \<le> of_int ?a" using a by simp
  have "rat_of_int ?a / of_int ?b \<le> of_int ?a / 2 powi (bitlen ?b - 1)"
    using a' order_refl bpos B by (rule frac_le)
  also have "\<dots> < 2 powi (bitlen ?a) / 2 powi (bitlen ?b - 1)"
    using A bpos by (simp add: divide_strict_right_mono)
  also have "\<dots> = 2 powi (?d + 1)"
    by (simp add: power_int_diff power_int_add field_simps)
  finally have "q < 2 powi (?d + 1)" using q by simp
  then show ?thesis by (auto simp: ilog2_def Let_def)
qed

lemma fl_lower:
  assumes "0 < q"
  shows "q - max (q / 2 ^ 53) (1 / 2 ^ 1075) \<le> fl q"
proof -
  let ?e = "ilog2 \<bar>q\<bar>"
  let ?u = "max (?e - 52) (- 1074)"
  let ?s = "(2::rat) powi ?u"
  have s: "0 < ?s" by simp
  have "(q / ?s - 1 / 2) * ?s \<le> of_int (roundEven (q / ?s)) * ?s"
    using roundEven_ge[of "q / ?s"] s by (simp add: mult_right_mono)
  also have "\<dots> = fl q" using assms by (simp add: fl_def Let_def)
  finally have "(q / ?s - 1 / 2) * ?s \<le> fl q" .
  moreover have "(q / ?s - 1 / 2) * ?s = q - ?s / 2" using s by (simp add: field_simps)
  ultimately have step: "q - ?s / 2 \<le> fl q" by simp
  have e: "2 powi ?e \<le> q" using ilog2_le[of "\<bar>q\<bar>"] assms by simp
  have "?s / 2 \<le> max (q / 2 ^ 53) (1 / 2 ^ 1075)"
  proof (cases "- 1074 \<le> ?e - 52")
    case True
    then have "?u = ?e - 52" by linarith
    then have "?s = 2 powi (?e - 52)" by (simp only:)
    then have "?s / 2 = 2 powi ?e / 2 ^ 53" by (simp add: power_int_diff)
    also have "\<dots> \<le> q / 2 ^ 53" using e by (simp add: divide_right_mono)
    finally show ?thesis by simp
  next
    case False
    then have "?u = - 1074" by linarith
    then have "?s = 2 powi (- 1074)" by (simp only:)
    then have "?s / 2 = 1 / 2 ^ 1075" by (simp add: power_int_minus_divide)
    then show ?thesis by simp
  qed
  with step show ?thesis by linarith
qed

lemma fl_pos:
  assumes "1 / 2 ^ 10 \<le> q" shows "0 < fl q"
proof -
  have q: "0 < q" using assms by (rule order.strict_trans2[rotated]) simp
  have "max (q / 2 ^ 53) (1 / 2 ^ 1075) < q"
  proof -
    have "q / 2 ^ 53 < q" using q by (simp add: field_simps)
    moreover have "(1::rat) / 2 ^ 1075 < 1 / 2 ^ 10" by simp
    ultimately show ?thesis using assms by (simp add: max_def)
  qed
  with fl_lower[OF q] show ?thesis by linarith
qed

lemma double_below_one:
  assumes "fl r = r" "0 \<le> r" "r < 1"
  shows "r \<le> 1 - 1 / 2 ^ 53"
proof (rule ccontr)
  assume "\<not> r \<le> 1 - 1 / 2 ^ 53"
  then have big: "1 - 1 / 2 ^ 53 < r" by simp
  then have half: "1 / 2 < r" by (rule order.strict_trans[rotated]) simp
  then have pos: "0 < r" by simp
  let ?e = "ilog2 \<bar>r\<bar>"
  have "2 powi ?e \<le> r" using ilog2_le[of "\<bar>r\<bar>"] pos by simp
  then have "(2::rat) powi ?e < 2 powi 0" using assms(3) by simp
  have e1: "?e < 0"
  proof (rule ccontr)
    assume "\<not> ?e < 0"
    then have "(2::rat) powi 0 \<le> 2 powi ?e" by (intro power_int_increasing) simp_all
    with \<open>(2::rat) powi ?e < 2 powi 0\<close> show False by simp
  qed
  have "r < 2 powi (?e + 1)" using ilog2_gt[of "\<bar>r\<bar>"] pos by simp
  then have "(2::rat) powi (- 1) < 2 powi (?e + 1)"
    using half by (simp add: power_int_minus_divide)
  have e2: "- 1 \<le> ?e"
  proof (rule ccontr)
    assume "\<not> - 1 \<le> ?e"
    then have "(2::rat) powi (?e + 1) \<le> 2 powi (- 1)" by (intro power_int_increasing) simp_all
    with \<open>(2::rat) powi (- 1) < 2 powi (?e + 1)\<close> show False by simp
  qed
  from e1 e2 have e: "?e = - 1" by simp
  have "max (?e - 52) (- 1074) = - 53" by (simp add: e)
  then have "fl r = of_int (roundEven (r / 2 powi (- 53))) * 2 powi (- 53)"
    using pos by (simp add: fl_def Let_def)
  then have "r = of_int (roundEven (r * 2 ^ 53)) / 2 ^ 53"
    using assms(1) by (simp add: power_int_minus_divide)
  then have "r * 2 ^ 53 = of_int (roundEven (r * 2 ^ 53))" by (simp add: field_simps)
  then obtain k :: int where k: "r * 2 ^ 53 = of_int k" by blast
  have "rat_of_int (2 ^ 53 - 1) < of_int k" using big k by (simp add: field_simps)
  then have k1: "2 ^ 53 - 1 < k" by (simp only: of_int_less_iff)
  have "of_int k < rat_of_int (2 ^ 53)" using assms(3) k by (simp add: field_simps)
  then have k2: "k < 2 ^ 53" by (simp only: of_int_less_iff)
  from k1 k2 show False by simp
qed

text \<open>Some doubles.\<close>

lemma fl_half [simp]: "fl (1 / 2) = 1 / 2"
  by code_simp

lemma fl_three_quarters [simp]: "fl (3 / 4) = 3 / 4"
  by code_simp

subsection \<open>Arithmetic of the handlers\<close>

lemma inGrid_fits: "inGrid g p \<Longrightarrow> width p \<le> g \<and> height p \<le> g"
  by (auto simp: inGrid_def)

lemma inGrid_movePiece:
  "width p \<le> g \<Longrightarrow> height p \<le> g \<Longrightarrow> inGrid g (movePiece g cs dx dy p)"
  by (simp add: inGrid_def movePiece_def Let_def)

lemma inGrid_scatterOne:
  assumes "unitRandom random" "width p \<le> g" "height p \<le> g"
  shows "inGrid g (scatterOne g random (k, p))"
proof -
  have d: "0 \<le> random n \<and> random n \<le> 1 - 1 / 2 ^ 53" for n
    using assms(1) double_below_one[of "random n"] by (simp add: unitRandom_def)
  from floor_fl_unit_mult[of "random (2 * k)" "g - width p + 1"] d assms(2)
  have fx: "0 \<le> \<lfloor>fl (random (2 * k) * of_int (g - width p + 1))\<rfloor>
     \<and> \<lfloor>fl (random (2 * k) * of_int (g - width p + 1))\<rfloor> \<le> g - width p" by simp
  from floor_fl_unit_mult[of "random (2 * k + 1)" "g - height p + 1"] d assms(3)
  have fy: "0 \<le> \<lfloor>fl (random (2 * k + 1) * of_int (g - height p + 1))\<rfloor>
     \<and> \<lfloor>fl (random (2 * k + 1) * of_int (g - height p + 1))\<rfloor> \<le> g - height p" by simp
  from fx fy show ?thesis by (simp add: inGrid_def scatterOne_def Math_floor_def)
qed

text \<open>Floors of fractions of numerals, for evaluating the handlers on examples.\<close>

lemma floor_rat_numeral_div: "\<lfloor>numeral a / numeral b :: rat\<rfloor> = numeral a div numeral b"
  using floor_divide_of_int_eq[of "numeral a" "numeral b", where ?'a = rat] by simp

lemma floor_rat_one_div: "\<lfloor>1 / numeral b :: rat\<rfloor> = 1 div numeral b"
  using floor_divide_of_int_eq[of 1 "numeral b", where ?'a = rat] by simp

lemma floor_rat_neg_div: "\<lfloor>- (numeral a / numeral b) :: rat\<rfloor> = - numeral a div numeral b"
  using floor_divide_of_int_eq[of "- numeral a" "numeral b", where ?'a = rat] by simp

lemmas floor_eval = floor_rat_numeral_div floor_rat_one_div floor_rat_neg_div

subsection \<open>What each handler leaves alone\<close>

lemma movePiece_frame [simp]:
  "pid (movePiece g cs dx dy p) = pid p"
  "isLocked (movePiece g cs dx dy p) = isLocked p"
  "originalX (movePiece g cs dx dy p) = originalX p"
  "originalY (movePiece g cs dx dy p) = originalY p"
  "width (movePiece g cs dx dy p) = width p"
  "height (movePiece g cs dx dy p) = height p"
  by (simp_all add: movePiece_def Let_def)

lemma scatterOne_frame [simp]:
  "pid (scatterOne g random kp) = pid (snd kp)"
  "isLocked (scatterOne g random kp) = isLocked (snd kp)"
  "originalX (scatterOne g random kp) = originalX (snd kp)"
  "originalY (scatterOne g random kp) = originalY (snd kp)"
  "width (scatterOne g random kp) = width (snd kp)"
  "height (scatterOne g random kp) = height (snd kp)"
  by (simp_all add: scatterOne_def split: prod.splits)

lemma gridSize_cong: "difficulty st' = difficulty st \<Longrightarrow> gridSize st' = gridSize st"
  by (simp add: gridSize_def)

lemma gridSize_startDrag [simp]: "gridSize (startDrag cx cy c st) = gridSize st"
  by (rule gridSize_cong) (simp add: startDrag_def Let_def split: option.splits)

lemma gridSize_handleMove [simp]: "gridSize (handleMove cx cy st) = gridSize st"
  by (rule gridSize_cong) (simp add: handleMove_def Let_def split: option.splits)

lemma gridSize_handleEnd [simp]: "gridSize (handleEnd st) = gridSize st"
  by (rule gridSize_cong) (simp add: handleEnd_def Let_def split: option.splits)

lemma gridSize_scatterPieces [simp]: "gridSize (scatterPieces r f st) = gridSize st"
  by (rule gridSize_cong) (simp add: scatterPieces_def Let_def)

lemma gridSize_updateSize [simp]: "gridSize (updateSize w st) = gridSize st"
  by (rule gridSize_cong) (simp add: updateSize_def)

lemma gridSize_initPuzzle [simp]: "gridSize (initPuzzle ps st) = gridSize st"
  by (rule gridSize_cong) (simp add: initPuzzle_def)

lemma gridSize_step [simp]: "gridSize (step e st) = gridSize st"
  by (cases e) (simp_all add: pointerMove_def pointerUp_def)

subsection \<open>The cell size is positive\<close>

text \<open>
  The container size starts at 600 and \<^verbatim>\<open>updateSize\<close> keeps it between 300 and 600; the grid
  size is 6, 10 or 16. The quotient is at least 18, its double is positive, and the
  division by the cell size in \<^verbatim>\<open>handleMove\<close> is never by zero.
\<close>

lemma gridSize_bounds: "0 < gridSize st \<and> gridSize st \<le> 16"
  by (simp add: gridSize_def)

lemma containerSize_step:
  assumes "1 \<le> containerSize st" shows "1 \<le> containerSize (step e st)"
proof (cases e)
  case (DragStart cx cy i)
  then show ?thesis using assms
    by (simp add: startDrag_def Let_def split: option.splits)
next
  case (DragMove cx cy)
  then show ?thesis using assms
    by (simp add: pointerMove_def handleMove_def Let_def split: option.splits)
next
  case DragEnd
  then show ?thesis using assms
    by (simp add: pointerUp_def handleEnd_def Let_def split: option.splits)
next
  case (Scatter random sortRandom)
  then show ?thesis using assms by (simp add: scatterPieces_def Let_def)
next
  case (Resize w)
  have "(1::int) \<le> max 300 (min 600 (w - 32))" by simp
  then have "(1::rat) \<le> of_int (max 300 (min 600 (w - 32)))" by (simp only: of_int_1_le_iff)
  then show ?thesis using Resize by (simp add: updateSize_def)
next
  case (Reset ps)
  then show ?thesis using assms by (simp add: initPuzzle_def)
qed

lemma gridSize_run [simp]: "gridSize (run es st) = gridSize st"
  by (induction es arbitrary: st) simp_all

lemma cellSize_positive:
  assumes "1 \<le> containerSize st" shows "0 < cellSize st"
proof -
  have g: "(0::rat) < of_int (gridSize st)" "rat_of_int (gridSize st) \<le> 16"
    using gridSize_bounds[of st] by simp_all
  have "(1::rat) / 16 \<le> 1 / of_int (gridSize st)"
    using g by (intro divide_left_mono) simp_all
  also have "\<dots> \<le> containerSize st / of_int (gridSize st)"
    using assms g by (intro divide_right_mono) simp_all
  finally have "(1::rat) / 16 \<le> containerSize st / of_int (gridSize st)" .
  moreover have "(1::rat) / 2 ^ 10 \<le> 1 / 16" by simp
  ultimately have "(1::rat) / 2 ^ 10 \<le> containerSize st / of_int (gridSize st)"
    by (rule order_trans[rotated])
  then show ?thesis unfolding cellSize_def by (rule fl_pos)
qed

lemma containerSize_run: "1 \<le> containerSize st \<Longrightarrow> 1 \<le> containerSize (run es st)"
  by (induction es arbitrary: st) (simp_all add: containerSize_step)

lemma cellSize_positive_run: "1 \<le> containerSize st \<Longrightarrow> 0 < cellSize (run es st)"
  by (rule cellSize_positive) (rule containerSize_run)

lemma cellSize_mounted: "0 < cellSize (run es (mounted r))"
  by (rule cellSize_positive_run) (simp add: mounted_def)

subsection \<open>The piece sequence after each handler\<close>

lemma pieces_startDrag:
  "pieces (startDrag cx cy c st) =
     (if isLocked c \<or> containerRef st = None then pieces st
      else filter (\<lambda>p. pid p \<noteq> pid c) (pieces st) @ [c])"
  by (simp add: startDrag_def Let_def split: option.splits)

lemma draggingId_startDrag:
  "draggingId (startDrag cx cy c st) =
     (if isLocked c \<or> containerRef st = None then draggingId st else Some (pid c))"
  by (simp add: startDrag_def Let_def split: option.splits)

lemma pieces_handleMove:
  "pieces (handleMove cx cy st) =
     (case containerRef st of
        None \<Rightarrow> pieces st
      | Some rect \<Rightarrow>
          map (\<lambda>p. if Some (pid p) = draggingId st
                    then movePiece (gridSize st) (cellSize st)
                           (fl (fl (cx - rect_left rect) - offset_x st))
                           (fl (fl (cy - rect_top rect) - offset_y st)) p
                    else p) (pieces st))"
  by (simp add: handleMove_def Let_def split: option.splits)

lemma draggingId_handleMove [simp]: "draggingId (handleMove cx cy st) = draggingId st"
  by (simp add: handleMove_def Let_def split: option.splits)

lemma isSolved_handleMove [simp]: "isSolved (handleMove cx cy st) = isSolved st"
  by (simp add: handleMove_def Let_def split: option.splits)

lemma pieces_handleEnd:
  "pieces (handleEnd st) =
     (case find (\<lambda>p. Some (pid p) = draggingId st) (pieces st) of
        None \<Rightarrow> pieces st
      | Some dp \<Rightarrow> if atHome dp then lockedFirst (lockDragged st) else pieces st)"
  by (simp add: handleEnd_def lockedFirst_def Let_def split: option.splits)

lemma draggingId_handleEnd [simp]: "draggingId (handleEnd st) = None"
  by (simp add: handleEnd_def Let_def split: option.splits)

lemma pieces_scatterPieces:
  "pieces (scatterPieces random sortRandom st) =
     filter isLocked (pieces st) @
     sortRandom (map (scatterOne (gridSize st) random)
                   (enumerate 0 (filter (\<lambda>p. \<not> isLocked p) (pieces st))))"
  by (simp add: scatterPieces_def Let_def)

lemma scatterPieces_frame [simp]:
  "draggingId (scatterPieces random sortRandom st) = draggingId st"
  "isSolved (scatterPieces random sortRandom st) = isSolved st"
  "offset_x (scatterPieces random sortRandom st) = offset_x st"
  "offset_y (scatterPieces random sortRandom st) = offset_y st"
  by (simp_all add: scatterPieces_def Let_def)

lemma rearranges_set: "rearranges f \<Longrightarrow> set (f xs) = set xs"
  by (metis rearranges_def set_mset_mset)

lemma rearranges_mset: "rearranges f \<Longrightarrow> mset (f xs) = mset xs"
  by (simp add: rearranges_def)

lemma set_lockedFirst [simp]: "set (lockedFirst ps) = set ps"
  by (auto simp: lockedFirst_def)

lemma mset_lockedFirst [simp]: "mset (lockedFirst ps) = mset ps"
  by (simp add: lockedFirst_def)

subsection \<open>Bounds\<close>

lemma allInGrid_iff: "allInGrid st \<longleftrightarrow> (\<forall>p\<in>set (pieces st). inGrid (gridSize st) p)"
  by (simp add: allInGrid_def list_all_iff)

lemma allInGrid_startDrag:
  "allInGrid st \<Longrightarrow> c \<in> set (pieces st) \<Longrightarrow> allInGrid (startDrag cx cy c st)"
  by (auto simp: allInGrid_iff pieces_startDrag)

lemma allInGrid_handleMove:
  assumes "allInGrid st" shows "allInGrid (handleMove cx cy st)"
proof -
  have all: "\<forall>p\<in>set (pieces st). inGrid (gridSize st) p"
    using assms by (simp add: allInGrid_iff)
  have "inGrid (gridSize st) p" if "p \<in> set (pieces (handleMove cx cy st))" for p
  proof (cases "containerRef st")
    case None
    with that all show ?thesis by (simp add: pieces_handleMove)
  next
    case (Some rect)
    with that obtain q where q: "q \<in> set (pieces st)"
      and p: "p = q \<or> (\<exists>cs dx dy. p = movePiece (gridSize st) cs dx dy q)"
      by (auto simp: pieces_handleMove split: if_splits)
    from q all have "inGrid (gridSize st) q" by blast
    with p show ?thesis using inGrid_fits inGrid_movePiece by blast
  qed
  then show ?thesis by (simp add: allInGrid_iff)
qed

lemma inGrid_lock [simp]: "inGrid g (p\<lparr>isLocked := b\<rparr>) = inGrid g p"
  by (simp add: inGrid_def)

lemma allInGrid_handleEnd:
  assumes "allInGrid st" shows "allInGrid (handleEnd st)"
proof -
  have "\<forall>p\<in>set (lockDragged st). inGrid (gridSize st) p"
    using assms by (auto simp: allInGrid_iff lockDragged_def)
  with assms show ?thesis
    by (auto simp: allInGrid_iff pieces_handleEnd split: option.splits if_splits)
qed

lemma allInGrid_scatterPieces:
  assumes "allInGrid st" "unitRandom random" "rearranges sortRandom"
  shows "allInGrid (scatterPieces random sortRandom st)"
proof -
  let ?g = "gridSize st"
  let ?un = "filter (\<lambda>p. \<not> isLocked p) (pieces st)"
  have all: "\<forall>p\<in>set (pieces st). inGrid ?g p"
    using assms(1) by (simp add: allInGrid_iff)
  have "\<forall>q\<in>set (map (scatterOne ?g random) (enumerate 0 ?un)). inGrid ?g q"
  proof
    fix q assume "q \<in> set (map (scatterOne ?g random) (enumerate 0 ?un))"
    then obtain k p where kp: "(k, p) \<in> set (enumerate 0 ?un)"
      and q: "q = scatterOne ?g random (k, p)" by auto
    from kp have "p \<in> set (pieces st)" by (auto simp: in_set_enumerate_eq dest: nth_mem)
    with all have "inGrid ?g p" by blast
    then show "inGrid ?g q" using q inGrid_scatterOne[OF assms(2)] inGrid_fits by blast
  qed
  then have "\<forall>q\<in>set (pieces (scatterPieces random sortRandom st)). inGrid ?g q"
    using all assms(3) by (auto simp: pieces_scatterPieces rearranges_set)
  then show ?thesis by (simp add: allInGrid_iff)
qed

lemma allInGrid_step:
  assumes "allInGrid st" "wellFormed e" "withinInstance e"
  shows "allInGrid (step e st)"
proof (cases e)
  case (DragStart cx cy i)
  then show ?thesis using assms(1) by (simp add: allInGrid_startDrag)
next
  case (DragMove cx cy)
  then show ?thesis using assms(1) by (simp add: pointerMove_def allInGrid_handleMove)
next
  case DragEnd
  then show ?thesis using assms(1) by (simp add: pointerUp_def allInGrid_handleEnd)
next
  case (Scatter random sortRandom)
  then show ?thesis using assms by (simp add: allInGrid_scatterPieces)
next
  case (Resize w)
  then show ?thesis using assms(1) by (simp add: allInGrid_iff) (simp add: updateSize_def)
next
  case (Reset ps)
  then show ?thesis using assms(3) by simp
qed

lemma allInGrid_run: "allInGrid st \<Longrightarrow> instanceRun es \<Longrightarrow> allInGrid (run es st)"
  by (induction es arbitrary: st) (simp_all add: instanceRun_def allInGrid_step)

subsection \<open>C1: the footprint stays inside the grid\<close>

text \<open>
  Claim C1. In a state where every piece satisfies \<open>0 \<le> currentX \<le> gridSize - width\<close> and
  \<open>0 \<le> currentY \<le> gridSize - height\<close>, the same holds after a pointer-move (the handler
  itself, and the window event that reaches it), after a scatter whose random numbers lie in
  \<open>[0, 1)\<close>, and after any sequence of drag-starts, pointer-moves, drag-ends, scatters and
  resizes.
\<close>

theorem footprint_stays_inside_grid:
  assumes "allInGrid st" and "unitRandom random" and "rearranges sortRandom"
    and "instanceRun es"
  shows "allInGrid (handleMove clientX clientY st)
       \<and> allInGrid (pointerMove clientX clientY st)
       \<and> allInGrid (scatterPieces random sortRandom st)
       \<and> allInGrid (run es st)"
  using assms
  by (simp add: pointerMove_def allInGrid_handleMove allInGrid_scatterPieces allInGrid_run)

text \<open>
  On the small board: rod A is grabbed and pulled far to the right (pixel 950 of a
  600-pixel container), released, and the pieces are scattered.
\<close>

theorem footprint_stays_inside_grid_witness:
  "allInGrid easyBoard \<and> unitRandom (\<lambda>_. 1 / 2) \<and> rearranges rev
   \<and> instanceRun [DragStart 350 50 0, DragMove 950 50, DragEnd, Scatter (\<lambda>_. 1 / 2) rev]
   \<and> allInGrid (handleMove 950 50 easyBoard)
   \<and> allInGrid (pointerMove 950 50 easyBoard)
   \<and> allInGrid (scatterPieces (\<lambda>_. 1 / 2) rev easyBoard)
   \<and> allInGrid (run [DragStart 350 50 0, DragMove 950 50, DragEnd, Scatter (\<lambda>_. 1 / 2) rev]
         easyBoard)"
proof -
  have h1: "allInGrid easyBoard"
    by (simp add: fixture_defs allInGrid_def inGrid_def gridSize_def)
  have h2: "unitRandom (\<lambda>_. 1 / 2)" by (simp add: unitRandom_def)
  have h3: "rearranges rev" by (simp add: rearranges_def)
  have h4: "instanceRun [DragStart 350 50 0, DragMove 950 50, DragEnd, Scatter (\<lambda>_. 1 / 2) rev]"
    by (simp add: instanceRun_def unitRandom_def rearranges_def)
  from footprint_stays_inside_grid[OF h1 h2 h3 h4, of 950 50] h1 h2 h3 h4
  show ?thesis by blast
qed

subsection \<open>Identity\<close>

lemma fixedPart_movePiece [simp]: "fixedPart (movePiece g cs dx dy p) = fixedPart p"
  by (simp add: fixedPart_def)

lemma fixedPart_scatterOne [simp]: "fixedPart (scatterOne g random kp) = fixedPart (snd kp)"
  by (simp add: fixedPart_def)

lemma fixedPart_lock [simp]: "fixedPart (p\<lparr>isLocked := b\<rparr>) = fixedPart p"
  by (simp add: fixedPart_def)

lemma pid_fixedPart: "pid p = fst (fixedPart p)"
  by (simp add: fixedPart_def)

lemma map_pid_fixedPart: "map pid ps = map fst (map fixedPart ps)"
  by (simp add: fixedPart_def)

lemma fixed_mset_ids:
  assumes "mset (map fixedPart ps') = mset (map fixedPart ps)"
  shows "mset (map pid ps') = mset (map pid ps)"
proof -
  have "mset (map fst (map fixedPart ps')) = mset (map fst (map fixedPart ps))"
    using assms by (metis mset_map)
  then show ?thesis by (simp only: map_pid_fixedPart)
qed

lemma map_snd_enumerate: "map (\<lambda>kp. f (snd kp)) (enumerate n xs) = map f xs"
  by (induction xs arbitrary: n) simp_all

lemma fixedPart_scattered:
  "map fixedPart (map (scatterOne g random) (enumerate 0 xs)) = map fixedPart xs"
  by (simp add: comp_def map_snd_enumerate)

lemma isLocked_scattered:
  "map isLocked (map (scatterOne g random) (enumerate 0 xs)) = map isLocked xs"
  by (simp add: comp_def map_snd_enumerate)

lemma same_id_same_piece:
  assumes "distinct (map pid ps)" "p \<in> set ps" "q \<in> set ps" "pid p = pid q"
  shows "p = q"
  using assms by (meson distinct_map inj_on_def)

lemma startDrag_permutes:
  assumes "distinct (map pid ps)" "c \<in> set ps"
  shows "mset (filter (\<lambda>p. pid p \<noteq> pid c) ps @ [c]) = mset ps"
proof -
  have d: "distinct ps" using assms(1) by (simp add: distinct_map)
  have "filter (\<lambda>p. pid p \<noteq> pid c) ps = filter (\<lambda>p. c \<noteq> p) ps"
    by (rule filter_cong) (use same_id_same_piece[OF assms] in fastforce)+
  also have "\<dots> = removeAll c ps" by (simp add: removeAll_filter_not_eq)
  also have "\<dots> = remove1 c ps" using d by (simp add: distinct_remove1_removeAll)
  finally have "mset (filter (\<lambda>p. pid p \<noteq> pid c) ps @ [c]) = mset (remove1 c ps) + {#c#}"
    by simp
  also have "\<dots> = mset ps" using assms(2) by simp
  finally show ?thesis .
qed

lemma mset_pieces_startDrag:
  "idsDistinct st \<Longrightarrow> c \<in> set (pieces st) \<Longrightarrow> mset (pieces (startDrag cx cy c st)) = mset (pieces st)"
  by (simp add: pieces_startDrag idsDistinct_def startDrag_permutes del: mset_append mset_filter)

lemma fixed_handleMove:
  "map fixedPart (pieces (handleMove cx cy st)) = map fixedPart (pieces st)"
  by (simp add: pieces_handleMove comp_def split: option.splits)

lemma fixed_lockDragged: "map fixedPart (lockDragged st) = map fixedPart (pieces st)"
  by (simp add: lockDragged_def comp_def)

lemma fixed_handleEnd:
  "mset (map fixedPart (pieces (handleEnd st))) = mset (map fixedPart (pieces st))"
proof -
  have "mset (map fixedPart (lockedFirst (lockDragged st))) = mset (map fixedPart (lockDragged st))"
    by (metis mset_lockedFirst mset_map)
  then show ?thesis
    by (simp add: pieces_handleEnd fixed_lockDragged split: option.splits)
qed

lemma fixed_scatterPieces:
  assumes "rearranges sortRandom"
  shows "mset (map fixedPart (pieces (scatterPieces random sortRandom st)))
         = mset (map fixedPart (pieces st))"
proof -
  let ?un = "filter (\<lambda>p. \<not> isLocked p) (pieces st)"
  let ?sc = "map (scatterOne (gridSize st) random) (enumerate 0 ?un)"
  have "mset (map fixedPart (sortRandom ?sc)) = mset (map fixedPart ?sc)"
    using rearranges_mset[OF assms] by (metis mset_map)
  also have "\<dots> = mset (map fixedPart ?un)" by (simp only: fixedPart_scattered)
  finally have "mset (map fixedPart (pieces (scatterPieces random sortRandom st)))
      = mset (map fixedPart (filter isLocked (pieces st))) + mset (map fixedPart ?un)"
    by (simp add: pieces_scatterPieces)
  also have "\<dots> = mset (map fixedPart (lockedFirst (pieces st)))"
    by (simp add: lockedFirst_def)
  also have "\<dots> = mset (map fixedPart (pieces st))"
    by (metis mset_lockedFirst mset_map)
  finally show ?thesis .
qed

lemma fixed_step:
  assumes "idsDistinct st" "wellFormed e" "withinInstance e"
  shows "mset (map fixedPart (pieces (step e st))) = mset (map fixedPart (pieces st))"
proof (cases e)
  case (DragStart cx cy i)
  show ?thesis
  proof (cases "i < length (pieces st)")
    case True
    then have "mset (pieces (step e st)) = mset (pieces st)"
      using DragStart assms(1) by (simp add: mset_pieces_startDrag)
    then show ?thesis by (metis mset_map)
  next
    case False
    then show ?thesis using DragStart by simp
  qed
next
  case (DragMove cx cy)
  then show ?thesis by (simp add: pointerMove_def fixed_handleMove del: mset_map)
next
  case DragEnd
  then show ?thesis by (simp add: pointerUp_def fixed_handleEnd del: mset_map)
next
  case (Scatter random sortRandom)
  then show ?thesis using assms(2) by (simp add: fixed_scatterPieces del: mset_map)
next
  case (Resize w)
  then show ?thesis by (simp add: updateSize_def)
next
  case (Reset ps)
  then show ?thesis using assms(3) by simp
qed

lemma idsDistinct_step:
  assumes "idsDistinct st" "wellFormed e" "withinInstance e"
  shows "idsDistinct (step e st)"
  using fixed_mset_ids[OF fixed_step[OF assms]] assms(1)
  by (metis idsDistinct_def mset_eq_imp_distinct_iff)

lemma fixed_run:
  "idsDistinct st \<Longrightarrow> instanceRun es \<Longrightarrow>
     mset (map fixedPart (pieces (run es st))) = mset (map fixedPart (pieces st))
     \<and> idsDistinct (run es st)"
proof (induction es arbitrary: st)
  case Nil
  then show ?case by simp
next
  case (Cons e es)
  then have e: "wellFormed e" "withinInstance e" and es: "instanceRun es"
    by (simp_all add: instanceRun_def)
  from Cons.IH[OF idsDistinct_step[OF Cons.prems(1) e] es] fixed_step[OF Cons.prems(1) e]
  show ?case by simp
qed

subsection \<open>C10: the pieces are the same pieces\<close>

text \<open>
  Claim C10. From a state whose identifiers are unique, any sequence of drag-starts,
  pointer-moves, drag-ends, scatters and resizes keeps the collection of pieces: the
  multiset of (id, originalX, originalY, width, height) is the one it started with (so no
  piece is created or removed and none changes these fields) and identifiers stay unique.
  A drag-start on a rendered piece only permutes the sequence, and a pointer-move keeps
  its order.
\<close>

theorem pieces_are_preserved:
  assumes "idsDistinct st" and "instanceRun es"
  shows "mset (map fixedPart (pieces (run es st))) = mset (map fixedPart (pieces st))
       \<and> idsDistinct (run es st)
       \<and> mset (pieces (step (DragStart clientX clientY i) st)) = mset (pieces st)
       \<and> map fixedPart (pieces (pointerMove clientX clientY st)) = map fixedPart (pieces st)"
proof -
  have "mset (pieces (step (DragStart clientX clientY i) st)) = mset (pieces st)"
    using assms(1) by (simp add: mset_pieces_startDrag)
  moreover have "map fixedPart (pieces (pointerMove clientX clientY st)) = map fixedPart (pieces st)"
    by (simp add: pointerMove_def fixed_handleMove)
  ultimately show ?thesis using fixed_run[OF assms] by blast
qed

theorem pieces_are_preserved_witness:
  "idsDistinct easyBoard
   \<and> instanceRun [DragStart 350 50 0, DragMove 50 50, DragEnd, Scatter (\<lambda>_. 1 / 2) rev]
   \<and> mset (map fixedPart (pieces (run [DragStart 350 50 0, DragMove 50 50, DragEnd,
                                           Scatter (\<lambda>_. 1 / 2) rev] easyBoard)))
       = mset (map fixedPart [rodA, rodB])
   \<and> idsDistinct (run [DragStart 350 50 0, DragMove 50 50, DragEnd, Scatter (\<lambda>_. 1 / 2) rev]
         easyBoard)
   \<and> mset (pieces (step (DragStart 350 50 0) easyBoard)) = mset [rodA, rodB]
   \<and> map fixedPart (pieces (pointerMove 50 50 easyBoard)) = map fixedPart [rodA, rodB]"
proof -
  have h1: "idsDistinct easyBoard" by (simp add: idsDistinct_def fixture_defs)
  have h2: "instanceRun [DragStart 350 50 0, DragMove 50 50, DragEnd, Scatter (\<lambda>_. 1 / 2) rev]"
    by (simp add: instanceRun_def unitRandom_def rearranges_def)
  have p: "pieces easyBoard = [rodA, rodB]" by (simp add: easyBoard_def)
  from pieces_are_preserved[OF h1 h2, of 350 50 0] pieces_are_preserved[OF h1 h2, of 50 50 0]
    h1 h2 p
  show ?thesis by simp
qed

subsection \<open>The dragged piece is unlocked\<close>

lemma dragUnlocked_iff:
  "dragUnlocked st \<longleftrightarrow> (\<forall>p\<in>set (pieces st). Some (pid p) = draggingId st \<longrightarrow> \<not> isLocked p)"
  by (simp add: dragUnlocked_def list_all_iff)

lemma startDrag_refused:
  "isLocked c \<or> containerRef st = None \<Longrightarrow> startDrag cx cy c st = st"
  by (auto simp: startDrag_def)

lemma dragUnlocked_startDrag:
  assumes "dragUnlocked st" shows "dragUnlocked (startDrag cx cy c st)"
proof (cases "isLocked c \<or> containerRef st = None")
  case True
  then show ?thesis using assms by (simp add: startDrag_refused)
next
  case False
  then have ps: "pieces (startDrag cx cy c st) = filter (\<lambda>p. pid p \<noteq> pid c) (pieces st) @ [c]"
    and d: "draggingId (startDrag cx cy c st) = Some (pid c)"
    by (auto simp: pieces_startDrag draggingId_startDrag)
  have "\<not> isLocked p" if "p \<in> set (filter (\<lambda>p. pid p \<noteq> pid c) (pieces st) @ [c])" "pid p = pid c" for p
    using that False by auto
  then show ?thesis unfolding dragUnlocked_iff ps d by simp
qed

lemma dragUnlocked_handleMove:
  assumes "dragUnlocked st" shows "dragUnlocked (handleMove cx cy st)"
proof (cases "containerRef st")
  case None
  then show ?thesis using assms by (simp add: dragUnlocked_iff pieces_handleMove)
next
  case (Some rect)
  have "\<not> isLocked q" if "q \<in> set (pieces (handleMove cx cy st))" "Some (pid q) = draggingId st" for q
  proof -
    from that(1) Some obtain p where p: "p \<in> set (pieces st)" "pid q = pid p" "isLocked q = isLocked p"
      by (auto simp: pieces_handleMove split: if_splits)
    with that(2) assms show ?thesis by (simp add: dragUnlocked_iff)
  qed
  then show ?thesis by (simp add: dragUnlocked_iff)
qed

lemma dragUnlocked_handleEnd: "dragUnlocked (handleEnd st)"
  by (simp add: dragUnlocked_iff)

lemma set_scattered:
  "q \<in> set (map (scatterOne g random) (enumerate 0 xs)) \<Longrightarrow>
     \<exists>k p. p \<in> set xs \<and> q = scatterOne g random (k, p)"
proof -
  assume "q \<in> set (map (scatterOne g random) (enumerate 0 xs))"
  then obtain k p where kp: "(k, p) \<in> set (enumerate 0 xs)" and q: "q = scatterOne g random (k, p)"
    by auto
  from kp have "p \<in> set xs" by (auto simp: in_set_enumerate_eq)
  with q show ?thesis by blast
qed

lemma scattered_unlocked:
  assumes "q \<in> set (map (scatterOne g random) (enumerate 0 (filter (\<lambda>p. \<not> isLocked p) ps)))"
  shows "\<not> isLocked q"
  using set_scattered[OF assms] by auto

lemma dragUnlocked_scatterPieces:
  assumes "dragUnlocked st" "rearranges sortRandom"
  shows "dragUnlocked (scatterPieces random sortRandom st)"
proof -
  have "\<not> isLocked q"
    if "q \<in> set (pieces (scatterPieces random sortRandom st))" "Some (pid q) = draggingId st" for q
  proof -
    from that(1) consider "q \<in> set (pieces st)" "isLocked q"
      | "q \<in> set (map (scatterOne (gridSize st) random)
                   (enumerate 0 (filter (\<lambda>p. \<not> isLocked p) (pieces st))))"
      by (auto simp: pieces_scatterPieces rearranges_set[OF assms(2)])
    then show ?thesis
    proof cases
      case 1
      with that(2) assms(1) show ?thesis by (simp add: dragUnlocked_iff)
    next
      case 2
      then show ?thesis by (rule scattered_unlocked)
    qed
  qed
  then show ?thesis by (simp add: dragUnlocked_iff)
qed

lemma dragUnlocked_initPuzzle:
  "list_all (\<lambda>p. \<not> isLocked p) shuffled \<Longrightarrow> dragUnlocked (initPuzzle shuffled st)"
  by (simp add: dragUnlocked_iff initPuzzle_def list_all_iff)

lemma dragUnlocked_step:
  assumes "dragUnlocked st" "wellFormed e"
  shows "dragUnlocked (step e st)"
proof (cases e)
  case (DragStart cx cy i)
  then show ?thesis using assms(1) by (simp add: dragUnlocked_startDrag)
next
  case (DragMove cx cy)
  then show ?thesis using assms(1) by (simp add: pointerMove_def dragUnlocked_handleMove)
next
  case DragEnd
  then show ?thesis using assms(1) by (simp add: pointerUp_def dragUnlocked_handleEnd)
next
  case (Scatter random sortRandom)
  then show ?thesis using assms by (simp add: dragUnlocked_scatterPieces)
next
  case (Resize w)
  then show ?thesis using assms(1) by (simp add: dragUnlocked_iff updateSize_def)
next
  case (Reset ps)
  then show ?thesis using assms(2) by (simp add: dragUnlocked_initPuzzle)
qed

lemma dragUnlocked_run: "dragUnlocked st \<Longrightarrow> wellFormedRun es \<Longrightarrow> dragUnlocked (run es st)"
  by (induction es arbitrary: st) (simp_all add: wellFormedRun_def dragUnlocked_step)

subsection \<open>A locked piece stays\<close>

lemma lock_locked: "isLocked p \<Longrightarrow> p\<lparr>isLocked := True\<rparr> = p"
  by simp

lemma locked_stays_startDrag:
  assumes "idsDistinct st" "c \<in> set (pieces st)" "p \<in> set (pieces st)" "isLocked p"
  shows "p \<in> set (pieces (startDrag cx cy c st))"
proof (cases "isLocked c \<or> containerRef st = None")
  case True
  then show ?thesis using assms(3) by (simp add: pieces_startDrag)
next
  case False
  then have "p \<noteq> c" using assms(4) by auto
  moreover have "distinct (map pid (pieces st))" using assms(1) by (simp add: idsDistinct_def)
  ultimately have "pid p \<noteq> pid c"
    using same_id_same_piece[OF _ assms(3) assms(2)] by blast
  then show ?thesis using assms(3) False by (simp add: pieces_startDrag)
qed

lemma locked_stays_handleMove:
  assumes "dragUnlocked st" "p \<in> set (pieces st)" "isLocked p"
  shows "p \<in> set (pieces (handleMove cx cy st))"
proof (cases "containerRef st")
  case None
  then show ?thesis using assms(2) by (simp add: pieces_handleMove)
next
  case (Some rect)
  define f where "f = (\<lambda>p::Piece. if Some (pid p) = draggingId st
                    then movePiece (gridSize st) (cellSize st)
                           (fl (fl (cx - rect_left rect) - offset_x st))
                           (fl (fl (cy - rect_top rect) - offset_y st)) p
                    else p)"
  have ps: "pieces (handleMove cx cy st) = map f (pieces st)"
    using Some by (simp add: pieces_handleMove f_def)
  have "Some (pid p) \<noteq> draggingId st" using assms by (auto simp: dragUnlocked_iff)
  then have "f p = p" by (simp add: f_def)
  then have "p \<in> f ` set (pieces st)" using assms(2) by (metis image_eqI)
  then show ?thesis by (simp add: ps)
qed

lemma locked_in_lockDragged:
  assumes "p \<in> set (pieces st)" "isLocked p"
  shows "p \<in> set (lockDragged st)"
proof -
  define f where "f = (\<lambda>p::Piece. if Some (pid p) = draggingId st then p\<lparr>isLocked := True\<rparr> else p)"
  have "f p = p" using assms(2) by (simp add: f_def)
  then have "p \<in> f ` set (pieces st)" using assms(1) by (metis image_eqI)
  then show ?thesis by (simp add: lockDragged_def f_def)
qed

lemma locked_stays_handleEnd:
  assumes "p \<in> set (pieces st)" "isLocked p"
  shows "p \<in> set (pieces (handleEnd st))"
  using assms locked_in_lockDragged[OF assms]
  by (simp add: pieces_handleEnd split: option.splits)

lemma locked_stays_scatterPieces:
  "p \<in> set (pieces st) \<Longrightarrow> isLocked p \<Longrightarrow> p \<in> set (pieces (scatterPieces random sortRandom st))"
  by (simp add: pieces_scatterPieces)

lemma locked_stays_step:
  assumes "idsDistinct st" "dragUnlocked st" "withinInstance e"
    and "p \<in> set (pieces st)" "isLocked p"
  shows "p \<in> set (pieces (step e st))"
proof (cases e)
  case (DragStart cx cy i)
  then show ?thesis using assms by (simp add: locked_stays_startDrag)
next
  case (DragMove cx cy)
  then show ?thesis using assms by (simp add: pointerMove_def locked_stays_handleMove)
next
  case DragEnd
  then show ?thesis using assms by (simp add: pointerUp_def locked_stays_handleEnd)
next
  case (Scatter random sortRandom)
  then show ?thesis using assms by (simp add: locked_stays_scatterPieces)
next
  case (Resize w)
  then show ?thesis using assms by (simp add: updateSize_def)
next
  case (Reset ps)
  then show ?thesis using assms(3) by simp
qed

lemma locked_stays_run:
  "idsDistinct st \<Longrightarrow> dragUnlocked st \<Longrightarrow> instanceRun es \<Longrightarrow>
   p \<in> set (pieces st) \<Longrightarrow> isLocked p \<Longrightarrow>
     p \<in> set (pieces (run es st)) \<and> idsDistinct (run es st) \<and> dragUnlocked (run es st)"
proof (induction es arbitrary: st)
  case Nil
  then show ?case by simp
next
  case (Cons e es)
  then have e: "wellFormed e" "withinInstance e" and es: "instanceRun es"
    by (simp_all add: instanceRun_def)
  have 1: "idsDistinct (step e st)" using Cons.prems(1) e by (rule idsDistinct_step)
  have 2: "dragUnlocked (step e st)" using Cons.prems(2) e(1) by (rule dragUnlocked_step)
  have 3: "p \<in> set (pieces (step e st))"
    using Cons.prems(1,2) e(2) Cons.prems(4,5) by (rule locked_stays_step)
  from Cons.IH[OF 1 2 es 3 Cons.prems(5)] show ?case by simp
qed

lemma find_unique:
  assumes "distinct (map pid ps)" "p \<in> set ps"
  shows "find (\<lambda>q. pid q = pid p) ps = Some p"
  using assms
proof (induction ps)
  case Nil
  then show ?case by simp
next
  case (Cons a ps)
  show ?case
  proof (cases "pid a = pid p")
    case True
    have "a = p"
      using same_id_same_piece[OF Cons.prems(1) _ Cons.prems(2) True] by simp
    then show ?thesis by simp
  next
    case False
    then have "p \<in> set ps" using Cons.prems(2) by auto
    with Cons.IH Cons.prems(1) False show ?thesis by simp
  qed
qed

lemma idsDistinct_initPuzzle:
  "distinct (map pid shuffled) \<Longrightarrow> idsDistinct (initPuzzle shuffled st)"
  by (simp add: idsDistinct_def initPuzzle_def)

lemma instanceRun_wellFormedRun: "instanceRun es \<Longrightarrow> wellFormedRun es"
  by (simp add: instanceRun_def wellFormedRun_def list_all_iff)

subsection \<open>C5: locking is monotonic\<close>

text \<open>
  Claim C5. Take a puzzle instance as generation leaves it (identifiers unique, every piece
  unlocked), run any sequence of drag-starts, pointer-moves, drag-ends, scatters and
  resizes, and let \<open>p\<close> be a piece that is locked at that point. After any further such
  sequence \<open>p\<close> is still in the sequence as it was: the piece carrying its identifier is
  \<open>p\<close> itself, with \<open>isLocked\<close> true and the same \<open>currentX\<close> and \<open>currentY\<close>. A drag-start
  on \<open>p\<close> changes nothing.
\<close>

theorem locking_is_monotonic:
  assumes "wellFormed (Reset shuffled)" and "instanceRun earlier" and "instanceRun later"
    and "p \<in> set (pieces (run earlier (initPuzzle shuffled st0)))" and "isLocked p"
  shows "p \<in> set (pieces (run later (run earlier (initPuzzle shuffled st0))))
       \<and> find (\<lambda>q. pid q = pid p) (pieces (run later (run earlier (initPuzzle shuffled st0))))
           = Some p
       \<and> startDrag clientX clientY p (run later (run earlier (initPuzzle shuffled st0)))
           = run later (run earlier (initPuzzle shuffled st0))"
proof -
  let ?s0 = "initPuzzle shuffled st0"
  let ?s1 = "run earlier ?s0"
  have d0: "idsDistinct ?s0" and u0: "dragUnlocked ?s0"
    using assms(1) by (simp_all add: idsDistinct_initPuzzle dragUnlocked_initPuzzle)
  have d1: "idsDistinct ?s1" using fixed_run[OF d0 assms(2)] by simp
  have u1: "dragUnlocked ?s1"
    using u0 instanceRun_wellFormedRun[OF assms(2)] by (rule dragUnlocked_run)
  from locked_stays_run[OF d1 u1 assms(3) assms(4) assms(5)]
  have in': "p \<in> set (pieces (run later ?s1))" and d2: "idsDistinct (run later ?s1)" by simp_all
  have "distinct (map pid (pieces (run later ?s1)))" using d2 by (simp add: idsDistinct_def)
  then have "find (\<lambda>q. pid q = pid p) (pieces (run later ?s1)) = Some p"
    using in' by (rule find_unique)
  moreover have "startDrag clientX clientY p (run later ?s1) = run later ?s1"
    using assms(5) by (simp add: startDrag_def)
  ultimately show ?thesis using in' by blast
qed

text \<open>
  On the small board: rod A is dragged home and released, which locks it; then the pieces
  are scattered and rod B is dragged about.
\<close>

theorem locking_is_monotonic_witness:
  "wellFormed (Reset [rodA, rodB])
   \<and> instanceRun [DragStart 350 50 0, DragMove 50 50, DragEnd]
   \<and> instanceRun [Scatter (\<lambda>_. 1 / 2) rev, DragStart 50 50 0, DragMove 250 50, DragEnd]
   \<and> rodA\<lparr>currentX := 0, isLocked := True\<rparr>
       \<in> set (pieces (run [DragStart 350 50 0, DragMove 50 50, DragEnd]
                      (initPuzzle [rodA, rodB] easyBoard)))
   \<and> isLocked (rodA\<lparr>currentX := 0, isLocked := True\<rparr>)
   \<and> rodA\<lparr>currentX := 0, isLocked := True\<rparr>
       \<in> set (pieces (run [Scatter (\<lambda>_. 1 / 2) rev, DragStart 50 50 0, DragMove 250 50, DragEnd]
                    (run [DragStart 350 50 0, DragMove 50 50, DragEnd]
                      (initPuzzle [rodA, rodB] easyBoard))))"
proof -
  have h1: "wellFormed (Reset [rodA, rodB])" by (simp add: fixture_defs)
  have h2: "instanceRun [DragStart 350 50 0, DragMove 50 50, DragEnd]"
    by (simp add: instanceRun_def)
  have h3: "instanceRun [Scatter (\<lambda>_. 1 / 2) rev, DragStart 50 50 0, DragMove 250 50, DragEnd]"
    by (simp add: instanceRun_def unitRandom_def rearranges_def)
  have h4: "rodA\<lparr>currentX := 0, isLocked := True\<rparr>
       \<in> set (pieces (run [DragStart 350 50 0, DragMove 50 50, DragEnd]
                      (initPuzzle [rodA, rodB] easyBoard)))"
    by (simp add: fixture_defs handler_defs Let_def)
  have h5: "isLocked (rodA\<lparr>currentX := 0, isLocked := True\<rparr>)" by simp
  from locking_is_monotonic[OF h1 h2 h3 h4 h5] h1 h2 h3 h4 h5
  show ?thesis by blast
qed

subsection \<open>Solved means all locked\<close>

lemma solvedIff_startDrag:
  assumes "solvedIff st" "c \<in> set (pieces st)"
  shows "solvedIff (startDrag cx cy c st)"
proof (cases "isLocked c \<or> containerRef st = None")
  case True
  then show ?thesis using assms(1) by (simp add: startDrag_refused)
next
  case False
  then have ps: "pieces (startDrag cx cy c st) = filter (\<lambda>p. pid p \<noteq> pid c) (pieces st) @ [c]"
    by (auto simp: pieces_startDrag)
  have s: "isSolved (startDrag cx cy c st) = isSolved st"
    by (simp add: startDrag_def Let_def split: option.splits)
  have "\<not> list_all isLocked (pieces st)"
    using assms(2) False by (auto simp: list_all_iff)
  then have "\<not> isSolved st" using assms(1) by (simp add: solvedIff_def)
  then show ?thesis using False by (simp add: solvedIff_def ps s)
qed

lemma locks_handleMove: "map isLocked (pieces (handleMove cx cy st)) = map isLocked (pieces st)"
  by (simp add: pieces_handleMove comp_def split: option.splits)

lemma list_all_map_eq:
  assumes "map f xs = map f ys" shows "list_all f xs = list_all f ys"
proof -
  have "list_all f xs = list_all (\<lambda>b. b) (map f xs)" by (simp add: list_all_iff)
  also have "\<dots> = list_all (\<lambda>b. b) (map f ys)" by (simp only: assms)
  also have "\<dots> = list_all f ys" by (simp add: list_all_iff)
  finally show ?thesis .
qed

lemma solvedIff_handleMove:
  assumes "solvedIff st" shows "solvedIff (handleMove cx cy st)"
proof -
  have l: "length (pieces (handleMove cx cy st)) = length (pieces st)"
    using locks_handleMove[of cx cy st] by (metis length_map)
  have "list_all isLocked (pieces (handleMove cx cy st)) = list_all isLocked (pieces st)"
    using locks_handleMove by (rule list_all_map_eq)
  moreover have "pieces (handleMove cx cy st) \<noteq> [] \<longleftrightarrow> pieces st \<noteq> []"
    using l by (metis length_0_conv)
  ultimately show ?thesis using assms by (simp add: solvedIff_def)
qed

lemma lockDragged_keeps_locked:
  "list_all isLocked (pieces st) \<Longrightarrow> list_all isLocked (lockDragged st)"
  by (auto simp: lockDragged_def list_all_iff)

lemma list_all_lockedFirst [simp]: "list_all P (lockedFirst ps) = list_all P ps"
  by (auto simp: list_all_iff)

lemma list_all_partition:
  "list_all P (filter Q xs @ filter (\<lambda>x. \<not> Q x) xs) = list_all P xs"
  by (auto simp: list_all_iff)

lemma isSolved_handleEnd:
  "isSolved (handleEnd st) =
     (case find (\<lambda>p. Some (pid p) = draggingId st) (pieces st) of
        None \<Rightarrow> isSolved st
      | Some dp \<Rightarrow>
          if atHome dp \<and> list_all isLocked (lockDragged st) then True else isSolved st)"
  by (simp add: handleEnd_def Let_def list_all_partition del: list_all_append split: option.splits)

lemma solvedIff_handleEnd:
  assumes "solvedIff st" shows "solvedIff (handleEnd st)"
proof (cases "find (\<lambda>p. Some (pid p) = draggingId st) (pieces st)")
  case None
  then show ?thesis using assms by (simp add: solvedIff_def pieces_handleEnd isSolved_handleEnd)
next
  case (Some dp)
  then have ne: "pieces st \<noteq> []" by (cases "pieces st") simp_all
  then have ne': "lockDragged st \<noteq> []" by (simp add: lockDragged_def)
  show ?thesis
  proof (cases "atHome dp")
    case False
    with Some assms show ?thesis by (simp add: solvedIff_def pieces_handleEnd isSolved_handleEnd)
  next
    case True
    have ps: "pieces (handleEnd st) = lockedFirst (lockDragged st)"
      using Some True by (simp add: pieces_handleEnd)
    have "set (lockedFirst (lockDragged st)) \<noteq> {}" using ne' by simp
    then have ne'': "lockedFirst (lockDragged st) \<noteq> []" by (simp only: set_empty not_False_eq_True)
    show ?thesis
    proof (cases "list_all isLocked (lockDragged st)")
      case True
      with Some \<open>atHome dp\<close> ne'' show ?thesis
        by (simp add: solvedIff_def ps isSolved_handleEnd)
    next
      case False
      then have "\<not> list_all isLocked (pieces st)" using lockDragged_keeps_locked by blast
      then have "\<not> isSolved st" using assms by (simp add: solvedIff_def)
      with Some False show ?thesis by (simp add: solvedIff_def ps isSolved_handleEnd)
    qed
  qed
qed

lemma locks_scatterPieces:
  assumes "rearranges sortRandom"
  shows "list_all isLocked (pieces (scatterPieces random sortRandom st)) = list_all isLocked (pieces st)"
proof -
  let ?un = "filter (\<lambda>p. \<not> isLocked p) (pieces st)"
  let ?sc = "map (scatterOne (gridSize st) random) (enumerate 0 ?un)"
  have "list_all isLocked (sortRandom ?sc) = list_all isLocked ?sc"
    by (simp add: list_all_iff rearranges_set[OF assms])
  also have "\<dots> = list_all isLocked ?un"
    using isLocked_scattered by (rule list_all_map_eq)
  finally have "list_all isLocked (pieces (scatterPieces random sortRandom st))
      = list_all isLocked (lockedFirst (pieces st))"
    by (simp add: pieces_scatterPieces lockedFirst_def)
  then show ?thesis by simp
qed

lemma length_scatterPieces:
  assumes "rearranges sortRandom"
  shows "length (pieces (scatterPieces random sortRandom st)) = length (pieces st)"
  using fixed_scatterPieces[OF assms, of random st] by (metis length_map size_mset)

lemma solvedIff_scatterPieces:
  assumes "solvedIff st" "rearranges sortRandom"
  shows "solvedIff (scatterPieces random sortRandom st)"
proof -
  have "pieces (scatterPieces random sortRandom st) \<noteq> [] \<longleftrightarrow> pieces st \<noteq> []"
    using length_scatterPieces[OF assms(2), of random st] by (metis length_0_conv)
  then show ?thesis using assms(1) locks_scatterPieces[OF assms(2), of random st]
    by (simp add: solvedIff_def)
qed

lemma solvedIff_initPuzzle:
  "shuffled \<noteq> [] \<Longrightarrow> list_all (\<lambda>p. \<not> isLocked p) shuffled \<Longrightarrow> solvedIff (initPuzzle shuffled st)"
  by (cases shuffled) (simp_all add: solvedIff_def initPuzzle_def)

lemma solvedIff_step:
  assumes "solvedIff st" "wellFormed e"
  shows "solvedIff (step e st)"
proof (cases e)
  case (DragStart cx cy i)
  then show ?thesis using assms(1) by (simp add: solvedIff_startDrag)
next
  case (DragMove cx cy)
  then show ?thesis using assms(1) by (simp add: pointerMove_def solvedIff_handleMove)
next
  case DragEnd
  then show ?thesis using assms(1) by (simp add: pointerUp_def solvedIff_handleEnd)
next
  case (Scatter random sortRandom)
  then show ?thesis using assms by (simp add: solvedIff_scatterPieces)
next
  case (Resize w)
  then show ?thesis using assms(1) by (simp add: solvedIff_def updateSize_def)
next
  case (Reset ps)
  then show ?thesis using assms(2) by (simp add: solvedIff_initPuzzle)
qed

lemma nonEmpty_step:
  assumes "pieces st \<noteq> []" "wellFormed e"
  shows "pieces (step e st) \<noteq> []"
proof (cases e)
  case (DragStart cx cy i)
  then show ?thesis using assms(1) by (simp add: pieces_startDrag)
next
  case (DragMove cx cy)
  then show ?thesis using assms(1)
    by (simp add: pointerMove_def pieces_handleMove split: option.splits)
next
  case DragEnd
  have "lockDragged st \<noteq> []" using assms(1) by (simp add: lockDragged_def)
  then have "set (lockedFirst (lockDragged st)) \<noteq> {}" by simp
  then have "lockedFirst (lockDragged st) \<noteq> []" by (simp only: set_empty not_False_eq_True)
  then show ?thesis using DragEnd assms(1)
    by (simp add: pointerUp_def pieces_handleEnd split: option.splits)
next
  case (Scatter random sortRandom)
  then have "rearranges sortRandom" using assms(2) by simp
  from length_scatterPieces[OF this, of random st] assms(1)
  have "pieces (scatterPieces random sortRandom st) \<noteq> []" by (metis length_0_conv)
  then show ?thesis using Scatter by simp
next
  case (Resize w)
  then show ?thesis using assms(1) by (simp add: updateSize_def)
next
  case (Reset ps)
  then show ?thesis using assms(2) by (simp add: initPuzzle_def)
qed

lemma solvedIff_run:
  "solvedIff st \<Longrightarrow> pieces st \<noteq> [] \<Longrightarrow> wellFormedRun es \<Longrightarrow>
     solvedIff (run es st) \<and> pieces (run es st) \<noteq> []"
proof (induction es arbitrary: st)
  case Nil
  then show ?case by simp
next
  case (Cons e es)
  then have e: "wellFormed e" and es: "wellFormedRun es" by (simp_all add: wellFormedRun_def)
  from Cons.IH[OF solvedIff_step[OF Cons.prems(1) e] nonEmpty_step[OF Cons.prems(2) e] es]
  show ?case by simp
qed

subsection \<open>C3: solved exactly when every piece is locked\<close>

text \<open>
  Claim C3. Start from a generated puzzle (at least one piece, every piece unlocked) and
  run any sequence of events, resets to such puzzles included. In the state reached the
  solved flag is true if and only if every piece is locked. The flag is false right after
  generation, and a scatter leaves it as it is.
\<close>

theorem solved_iff_all_locked:
  assumes "wellFormed (Reset shuffled)" and "wellFormedRun es"
  shows "(isSolved (run es (initPuzzle shuffled st0))
            \<longleftrightarrow> list_all isLocked (pieces (run es (initPuzzle shuffled st0))))
       \<and> isSolved (initPuzzle shuffled st0) = False
       \<and> isSolved (scatterPieces random sortRandom (run es (initPuzzle shuffled st0)))
           = isSolved (run es (initPuzzle shuffled st0))"
proof -
  have 1: "solvedIff (initPuzzle shuffled st0)"
    using assms(1) by (simp add: solvedIff_initPuzzle)
  have 2: "pieces (initPuzzle shuffled st0) \<noteq> []"
    using assms(1) by (simp add: initPuzzle_def)
  from solvedIff_run[OF 1 2 assms(2)]
  have "isSolved (run es (initPuzzle shuffled st0))
            \<longleftrightarrow> list_all isLocked (pieces (run es (initPuzzle shuffled st0)))"
    by (simp add: solvedIff_def)
  moreover have "isSolved (initPuzzle shuffled st0) = False" by (simp add: initPuzzle_def)
  ultimately show ?thesis by simp
qed

text \<open>
  On the small board: rod A is dragged home and locked; the scatter happens to put rod B
  on its home cell, which does not lock it; a press and release on rod B does, and the
  puzzle is solved.
\<close>

theorem solved_iff_all_locked_witness:
  "wellFormed (Reset [rodA, rodB])
   \<and> wellFormedRun [DragStart 350 50 0, DragMove 50 50, DragEnd, Scatter (\<lambda>_. 1 / 2) rev,
                     DragStart 150 50 1, DragEnd]
   \<and> isSolved (run [DragStart 350 50 0, DragMove 50 50, DragEnd, Scatter (\<lambda>_. 1 / 2) rev,
                     DragStart 150 50 1, DragEnd] (initPuzzle [rodA, rodB] easyBoard))
   \<and> list_all isLocked
        (pieces (run [DragStart 350 50 0, DragMove 50 50, DragEnd, Scatter (\<lambda>_. 1 / 2) rev,
                     DragStart 150 50 1, DragEnd] (initPuzzle [rodA, rodB] easyBoard)))
   \<and> isSolved (initPuzzle [rodA, rodB] easyBoard) = False"
proof -
  have h1: "wellFormed (Reset [rodA, rodB])" by (simp add: fixture_defs)
  have h2: "wellFormedRun [DragStart 350 50 0, DragMove 50 50, DragEnd, Scatter (\<lambda>_. 1 / 2) rev,
                     DragStart 150 50 1, DragEnd]"
    by (simp add: wellFormedRun_def unitRandom_def rearranges_def)
  have h3: "isSolved (run [DragStart 350 50 0, DragMove 50 50, DragEnd, Scatter (\<lambda>_. 1 / 2) rev,
                     DragStart 150 50 1, DragEnd] (initPuzzle [rodA, rodB] easyBoard))"
    by (simp add: fixture_defs handler_defs floor_eval Let_def)
  from solved_iff_all_locked[OF h1 h2, of easyBoard] h1 h2 h3
  show ?thesis by blast
qed

subsection \<open>Locked pieces first\<close>

lemma lockedPrecede_unlocked: "list_all (\<lambda>q. \<not> isLocked q) us \<Longrightarrow> lockedPrecede us"
  by (induction us) simp_all

lemma lockedPrecede_append:
  "list_all isLocked ls \<Longrightarrow> list_all (\<lambda>q. \<not> isLocked q) us \<Longrightarrow> lockedPrecede (ls @ us)"
  by (induction ls) (simp_all add: lockedPrecede_unlocked)

lemma lockedPrecede_lockedFirst: "lockedPrecede (lockedFirst ps)"
  unfolding lockedFirst_def by (rule lockedPrecede_append) (simp_all add: list_all_iff)

lemma filter_locked_lockedFirst: "filter isLocked (lockedFirst ps) = filter isLocked ps"
  by (simp add: lockedFirst_def)

lemma filter_unlocked_lockedFirst:
  "filter (\<lambda>p. \<not> isLocked p) (lockedFirst ps) = filter (\<lambda>p. \<not> isLocked p) ps"
  by (simp add: lockedFirst_def)

subsection \<open>Release\<close>

lemma dragged_locked_in_lockDragged:
  "p \<in> set (lockDragged st) \<Longrightarrow> Some (pid p) = draggingId st \<Longrightarrow> isLocked p"
  by (auto simp: lockDragged_def split: if_splits)

lemma find_dragged:
  assumes "find (\<lambda>p. Some (pid p) = draggingId st) (pieces st) = Some dp"
  shows "dp \<in> set (pieces st) \<and> Some (pid dp) = draggingId st"
  using assms by (auto simp: find_Some_iff)

subsection \<open>C2: a release locks the piece exactly at home\<close>

text \<open>
  Claim C2. Let a drag be active (the listeners are installed) and let \<open>dp\<close> be the dragged
  piece, unlocked as every dragged piece is. After the pointer-up no drag is active, and
  the dragged piece is locked if and only if \<open>dp\<close> was on its home cell. If it was, the
  sequence is the one with the dragged piece locked in place, reordered so that no unlocked
  piece comes before a locked one, each of the two groups keeping its order; and if every
  piece is then locked, the puzzle is solved. If it was not, the sequence and the solved
  flag are what they were.
\<close>

theorem release_locks_exactly_at_home:
  assumes "listening st" and "dragUnlocked st"
    and "find (\<lambda>p. Some (pid p) = draggingId st) (pieces st) = Some dp"
  shows "draggingId (pointerUp st) = None
       \<and> (list_all (\<lambda>p. Some (pid p) = draggingId st \<longrightarrow> isLocked p) (pieces (pointerUp st))
            \<longleftrightarrow> atHome dp)
       \<and> (atHome dp \<longrightarrow>
            lockedPrecede (pieces (pointerUp st))
          \<and> filter isLocked (pieces (pointerUp st)) = filter isLocked (lockDragged st)
          \<and> filter (\<lambda>p. \<not> isLocked p) (pieces (pointerUp st))
              = filter (\<lambda>p. \<not> isLocked p) (lockDragged st)
          \<and> (list_all isLocked (pieces (pointerUp st)) \<longrightarrow> isSolved (pointerUp st)))
       \<and> (\<not> atHome dp \<longrightarrow>
            pieces (pointerUp st) = pieces st \<and> isSolved (pointerUp st) = isSolved st)"
proof -
  have up: "pointerUp st = handleEnd st" using assms(1) by (simp add: pointerUp_def)
  have dp: "dp \<in> set (pieces st)" "Some (pid dp) = draggingId st"
    using find_dragged[OF assms(3)] by simp_all
  have unl: "\<not> isLocked dp" using assms(2) dp by (simp add: dragUnlocked_iff)
  show ?thesis
  proof (cases "atHome dp")
    case True
    have ps: "pieces (handleEnd st) = lockedFirst (lockDragged st)"
      using assms(3) True by (simp add: pieces_handleEnd)
    have "list_all (\<lambda>p. Some (pid p) = draggingId st \<longrightarrow> isLocked p) (lockedFirst (lockDragged st))"
      using dragged_locked_in_lockDragged by (simp add: list_all_iff)
    moreover have "list_all isLocked (lockedFirst (lockDragged st)) \<longrightarrow> isSolved (handleEnd st)"
      using assms(3) True by (simp add: isSolved_handleEnd)
    ultimately show ?thesis using True
      by (simp add: up ps lockedPrecede_lockedFirst filter_locked_lockedFirst
          filter_unlocked_lockedFirst del: list_all_lockedFirst)
  next
    case False
    have ps: "pieces (handleEnd st) = pieces st"
      using assms(3) False by (simp add: pieces_handleEnd)
    have "\<not> list_all (\<lambda>p. Some (pid p) = draggingId st \<longrightarrow> isLocked p) (pieces st)"
      using dp unl by (auto simp: list_all_iff)
    moreover have "isSolved (handleEnd st) = isSolved st"
      using assms(3) False by (simp add: isSolved_handleEnd)
    ultimately show ?thesis using False by (simp add: up ps)
  qed
qed

text \<open>
  On the small board: rod A, grabbed (which puts it after rod B) and dragged to its home
  cell, is locked by the release and moves in front of rod B.
\<close>

theorem release_locks_exactly_at_home_witness:
  "listening (run [DragStart 350 50 0, DragMove 50 50] easyBoard)
   \<and> dragUnlocked (run [DragStart 350 50 0, DragMove 50 50] easyBoard)
   \<and> find (\<lambda>p. Some (pid p) = draggingId (run [DragStart 350 50 0, DragMove 50 50] easyBoard))
        (pieces (run [DragStart 350 50 0, DragMove 50 50] easyBoard)) = Some (rodA\<lparr>currentX := 0\<rparr>)
   \<and> atHome (rodA\<lparr>currentX := 0\<rparr>)
   \<and> pieces (run [DragStart 350 50 0, DragMove 50 50] easyBoard) = [rodB, rodA\<lparr>currentX := 0\<rparr>]
   \<and> pieces (pointerUp (run [DragStart 350 50 0, DragMove 50 50] easyBoard))
       = [rodA\<lparr>currentX := 0, isLocked := True\<rparr>, rodB]
   \<and> lockedPrecede (pieces (pointerUp (run [DragStart 350 50 0, DragMove 50 50] easyBoard)))
   \<and> draggingId (pointerUp (run [DragStart 350 50 0, DragMove 50 50] easyBoard)) = None"
proof -
  let ?s = "run [DragStart 350 50 0, DragMove 50 50] easyBoard"
  have h1: "listening ?s" by (simp add: fixture_defs handler_defs floor_eval Let_def)
  have h2: "dragUnlocked ?s" by (simp add: dragUnlocked_def fixture_defs handler_defs floor_eval Let_def)
  have h3: "find (\<lambda>p. Some (pid p) = draggingId ?s) (pieces ?s) = Some (rodA\<lparr>currentX := 0\<rparr>)"
    by (simp add: fixture_defs handler_defs floor_eval Let_def)
  have h4: "atHome (rodA\<lparr>currentX := 0\<rparr>)" by (simp add: atHome_def rodA_def)
  have h5: "pieces ?s = [rodB, rodA\<lparr>currentX := 0\<rparr>]"
    by (simp add: fixture_defs handler_defs floor_eval Let_def)
  have h6: "pieces (pointerUp ?s) = [rodA\<lparr>currentX := 0, isLocked := True\<rparr>, rodB]"
    by (simp add: fixture_defs handler_defs floor_eval Let_def)
  from release_locks_exactly_at_home[OF h1 h2 h3] h4
  have c: "lockedPrecede (pieces (pointerUp ?s))" "draggingId (pointerUp ?s) = None" by blast+
  from h1 h2 h3 h4 h5 h6 c show ?thesis by blast
qed

subsection \<open>Pointer move\<close>

lemma Math_round_nearest:
  "of_int (Math_round q) \<le> q + 1 / 2 \<and> q + 1 / 2 < of_int (Math_round q) + 1"
  unfolding Math_round_def using floor_correct[of "q + 1 / 2"] by linarith

lemma handleMove_frame: "handleMove cx cy st = st\<lparr>pieces := pieces (handleMove cx cy st)\<rparr>"
  by (simp add: handleMove_def Let_def split: option.splits)

subsection \<open>C4: a pointer-move snaps and clamps\<close>

text \<open>
  Claim C4. With a drag active, a container at \<open>rect\<close> and a positive cell size, a
  pointer-move computes, in the arithmetic of doubles, the quotients
  \<open>qx = ((clientX - rect.left) - offset.x) / cellSize\<close> and
  \<open>qy = ((clientY - rect.top) - offset.y) / cellSize\<close>, and two integers \<open>nx\<close> and \<open>ny\<close>, the
  nearest integers (a tie going up) to \<open>qx\<close> and \<open>qy\<close>. Every piece whose identifier is
  the dragged one gets \<open>currentX = max 0 (min (gridSize - width) nx)\<close> and
  \<open>currentY = max 0 (min (gridSize - height) ny)\<close>; every other piece, and every other part
  of the state, is unchanged. The handler is total: there is no error result.
\<close>

theorem move_snaps_and_clamps:
  assumes "listening st" and "containerRef st = Some rect" and "0 < cellSize st"
    and "qx = fl (fl (fl (clientX - rect_left rect) - offset_x st) / cellSize st)"
    and "qy = fl (fl (fl (clientY - rect_top rect) - offset_y st) / cellSize st)"
  shows "\<exists>nx ny.
           rat_of_int nx \<le> qx + 1 / 2 \<and> qx + 1 / 2 < rat_of_int nx + 1
         \<and> rat_of_int ny \<le> qy + 1 / 2 \<and> qy + 1 / 2 < rat_of_int ny + 1
         \<and> pieces (pointerMove clientX clientY st)
             = map (\<lambda>p. if Some (pid p) = draggingId st
                         then p\<lparr>currentX := max 0 (min (gridSize st - width p) nx),
                                currentY := max 0 (min (gridSize st - height p) ny)\<rparr>
                         else p) (pieces st)
         \<and> pointerMove clientX clientY st = st\<lparr>pieces := pieces (pointerMove clientX clientY st)\<rparr>"
proof -
  have mv: "pointerMove clientX clientY st = handleMove clientX clientY st"
    using assms(1) by (simp add: pointerMove_def)
  have "pieces (handleMove clientX clientY st)
      = map (\<lambda>p. if Some (pid p) = draggingId st
                  then p\<lparr>currentX := max 0 (min (gridSize st - width p) (Math_round qx)),
                         currentY := max 0 (min (gridSize st - height p) (Math_round qy))\<rparr>
                  else p) (pieces st)"
    using assms(2) by (simp add: pieces_handleMove movePiece_def Let_def assms(4,5))
  with Math_round_nearest[of qx] Math_round_nearest[of qy] handleMove_frame[of clientX clientY st]
  show ?thesis unfolding mv by blast
qed

text \<open>
  On the Medium board: rod C, four cells wide, is grabbed at pixel (130, 250) and the
  pointer moves to pixel (490, 250), which is cell 8 of a 10-wide grid; the rod ends at
  \<open>currentX = 6\<close>.
\<close>

theorem move_snaps_and_clamps_witness:
  "listening (startDrag 130 250 rodC mediumBoard)
   \<and> containerRef (startDrag 130 250 rodC mediumBoard) = Some \<lparr>rect_left = 0, rect_top = 0\<rparr>
   \<and> 0 < cellSize (startDrag 130 250 rodC mediumBoard)
   \<and> 8 = fl (fl (fl (490 - rect_left \<lparr>rect_left = 0, rect_top = 0\<rparr>)
                    - offset_x (startDrag 130 250 rodC mediumBoard))
               / cellSize (startDrag 130 250 rodC mediumBoard))
   \<and> 4 = fl (fl (fl (250 - rect_top \<lparr>rect_left = 0, rect_top = 0\<rparr>)
                    - offset_y (startDrag 130 250 rodC mediumBoard))
               / cellSize (startDrag 130 250 rodC mediumBoard))
   \<and> width rodC = 4 \<and> gridSize (startDrag 130 250 rodC mediumBoard) = 10
   \<and> pieces (pointerMove 490 250 (startDrag 130 250 rodC mediumBoard))
       = [rodD, rodC\<lparr>currentX := 6, currentY := 4\<rparr>]
   \<and> pointerMove 490 250 (startDrag 130 250 rodC mediumBoard)
       = (startDrag 130 250 rodC mediumBoard)
           \<lparr>pieces := pieces (pointerMove 490 250 (startDrag 130 250 rodC mediumBoard))\<rparr>"
proof -
  let ?s = "startDrag 130 250 rodC mediumBoard"
  have h1: "listening ?s" by (simp add: fixture_defs2 handler_defs floor_eval Let_def)
  have h2: "containerRef ?s = Some \<lparr>rect_left = 0, rect_top = 0\<rparr>"
    by (simp add: fixture_defs2 handler_defs floor_eval Let_def)
  have h3: "0 < cellSize ?s" by (simp add: fixture_defs2 handler_defs floor_eval Let_def)
  have h4: "8 = fl (fl (fl (490 - rect_left \<lparr>rect_left = 0, rect_top = 0\<rparr>) - offset_x ?s)
                    / cellSize ?s)"
    by (simp add: fixture_defs2 handler_defs floor_eval Let_def)
  have h5: "4 = fl (fl (fl (250 - rect_top \<lparr>rect_left = 0, rect_top = 0\<rparr>) - offset_y ?s)
                    / cellSize ?s)"
    by (simp add: fixture_defs2 handler_defs floor_eval Let_def)
  have h6: "width rodC = 4 \<and> gridSize ?s = 10"
    by (simp add: fixture_defs2 handler_defs floor_eval Let_def)
  have h7: "pieces (pointerMove 490 250 ?s) = [rodD, rodC\<lparr>currentX := 6, currentY := 4\<rparr>]"
    by (simp add: fixture_defs2 handler_defs floor_eval Let_def)
  from move_snaps_and_clamps[OF h1 h2 h3 h4 h5]
  have c: "pointerMove 490 250 ?s = ?s\<lparr>pieces := pieces (pointerMove 490 250 ?s)\<rparr>" by blast
  from h1 h2 h3 h4 h5 h6 h7 c show ?thesis by blast
qed

subsection \<open>A pointer-move on a cell size that is not a whole number\<close>

text \<open>
  An Easy grid in a container of 304 pixels: the cell size is the double nearest to
  \<open>152 / 3\<close>. A rod at cell 1 is grabbed at pixel 51; the grab offset is the double
  \<open>46912496118443 / 2 ^ 47\<close>, a little more than \<open>1 / 3\<close>. The pointer moves to pixel 127: the
  quotient of the doubles is the half-cell tie 2.5, and the rod goes to cell 3.
\<close>

lemma narrow_cell_size:
  "fl (304 / 6) = 7130699410003285 / 2 ^ 47
   \<and> fl (fl (51 - 0) - fl (1 * fl (304 / 6))) = 46912496118443 / 2 ^ 47
   \<and> fl (fl (fl (127 - 0) - fl (fl (51 - 0) - fl (1 * fl (304 / 6)))) / fl (304 / 6)) = 5 / 2"
  by code_simp

lemma pointer_move_on_a_tie:
  "offset_x (startDrag 51 20 (rodA\<lparr>currentX := 1\<rparr>)
               (easyBoard\<lparr>pieces := [rodA\<lparr>currentX := 1\<rparr>, rodB], containerSize := 304\<rparr>))
     = 46912496118443 / 2 ^ 47
   \<and> pieces (run [DragStart 51 20 0, DragMove 127 20]
               (easyBoard\<lparr>pieces := [rodA\<lparr>currentX := 1\<rparr>, rodB], containerSize := 304\<rparr>))
       = [rodB, rodA\<lparr>currentX := 3\<rparr>]"
  by code_simp

subsection \<open>Scatter\<close>

lemma scatter_keeps_mset:
  assumes "rearranges sortRandom"
    and "\<And>kp. f (scatterOne (gridSize st) random kp) = f (snd kp)"
  shows "mset (map f (pieces (scatterPieces random sortRandom st))) = mset (map f (pieces st))"
proof -
  let ?un = "filter (\<lambda>p. \<not> isLocked p) (pieces st)"
  let ?sc = "map (scatterOne (gridSize st) random) (enumerate 0 ?un)"
  have "map f ?sc = map f ?un" by (simp add: comp_def assms(2) map_snd_enumerate)
  moreover have "mset (map f (sortRandom ?sc)) = mset (map f ?sc)"
    using rearranges_mset[OF assms(1)] by (metis mset_map)
  ultimately have "mset (map f (pieces (scatterPieces random sortRandom st)))
      = mset (map f (filter isLocked (pieces st))) + mset (map f ?un)"
    by (simp add: pieces_scatterPieces)
  also have "\<dots> = mset (map f (lockedFirst (pieces st)))"
    by (simp add: lockedFirst_def)
  also have "\<dots> = mset (map f (pieces st))"
    by (metis mset_lockedFirst mset_map)
  finally show ?thesis .
qed

lemma shuffled_unlocked:
  assumes "rearranges sortRandom"
  shows "list_all (\<lambda>q. \<not> isLocked q)
           (sortRandom (map (scatterOne g random) (enumerate 0 (filter (\<lambda>p. \<not> isLocked p) ps))))"
proof -
  have "\<not> isLocked q"
    if "q \<in> set (map (scatterOne g random) (enumerate 0 (filter (\<lambda>p. \<not> isLocked p) ps)))" for q
    using that by (rule scattered_unlocked)
  then show ?thesis by (simp only: list_all_iff rearranges_set[OF assms]) blast
qed

lemma filter_none: "list_all (\<lambda>q. \<not> P q) xs \<Longrightarrow> filter P xs = []"
  by (induction xs) simp_all

lemma filter_every: "list_all P xs \<Longrightarrow> filter P xs = xs"
  by (induction xs) simp_all

lemma scatterPieces_frame_eq:
  "scatterPieces random sortRandom st = st\<lparr>pieces := pieces (scatterPieces random sortRandom st)\<rparr>"
  by (simp add: scatterPieces_def Let_def)

lemma scatterOne_explicit:
  "scatterOne g random =
     (\<lambda>(k, p). p\<lparr>currentX := \<lfloor>fl (random (2 * k) * of_int (g - width p + 1))\<rfloor>,
                   currentY := \<lfloor>fl (random (2 * k + 1) * of_int (g - height p + 1))\<rfloor>\<rparr>)"
  by (simp add: fun_eq_iff scatterOne_def Math_floor_def)

lemma unlocked_after_scatter:
  assumes "rearranges sortRandom"
  shows "mset (filter (\<lambda>p. \<not> isLocked p) (pieces (scatterPieces random sortRandom st)))
       = mset (map (\<lambda>(k, p).
                      p\<lparr>currentX := \<lfloor>fl (random (2 * k) * of_int (gridSize st - width p + 1))\<rfloor>,
                        currentY := \<lfloor>fl (random (2 * k + 1) * of_int (gridSize st - height p + 1))\<rfloor>\<rparr>)
                 (enumerate 0 (filter (\<lambda>p. \<not> isLocked p) (pieces st))))"
proof -
  let ?sc = "map (scatterOne (gridSize st) random)
               (enumerate 0 (filter (\<lambda>p. \<not> isLocked p) (pieces st)))"
  have un: "list_all (\<lambda>q. \<not> isLocked q) (sortRandom ?sc)"
    using assms by (rule shuffled_unlocked)
  have "filter (\<lambda>p. \<not> isLocked p) (sortRandom ?sc) = sortRandom ?sc"
    using un by (rule filter_every)
  then have "filter (\<lambda>p. \<not> isLocked p) (pieces (scatterPieces random sortRandom st))
      = sortRandom ?sc"
    by (simp add: pieces_scatterPieces)
  then have "mset (filter (\<lambda>p. \<not> isLocked p) (pieces (scatterPieces random sortRandom st)))
      = mset ?sc"
    by (simp only: rearranges_mset[OF assms])
  then show ?thesis by (simp only: scatterOne_explicit)
qed

subsection \<open>C6: what a scatter changes\<close>

text \<open>
  Claim C6. For a scatter whose random numbers are doubles in \<open>[0, 1)\<close>, from a state whose
  pieces are inside the grid: the locked pieces are, in the same order, the locked pieces
  of before, each unchanged; no unlocked piece comes before a locked one; the unlocked
  pieces are, in some order, the unlocked pieces of before with their positions
  re-sampled, the \<open>k\<close>-th of them at \<open>currentX = floor (r * (gridSize - width + 1))\<close> and
  \<open>currentY = floor (r' * (gridSize - height + 1))\<close> for the draws \<open>r\<close> and \<open>r'\<close> numbered
  \<open>2 * k\<close> and \<open>2 * k + 1\<close>, the products being those of doubles; every piece keeps its
  identity and its \<open>isLocked\<close>; every piece is inside the grid; and nothing but the piece
  sequence changes (the solved flag, the drag and the rest of the state are as before).
\<close>

theorem scatter_touches_only_unlocked:
  assumes "unitRandom random" and "rearranges sortRandom" and "allInGrid st"
  shows "filter isLocked (pieces (scatterPieces random sortRandom st)) = filter isLocked (pieces st)
       \<and> lockedPrecede (pieces (scatterPieces random sortRandom st))
       \<and> mset (filter (\<lambda>p. \<not> isLocked p) (pieces (scatterPieces random sortRandom st)))
           = mset (map (\<lambda>(k, p).
                      p\<lparr>currentX := \<lfloor>fl (random (2 * k) * of_int (gridSize st - width p + 1))\<rfloor>,
                        currentY := \<lfloor>fl (random (2 * k + 1) * of_int (gridSize st - height p + 1))\<rfloor>\<rparr>)
                    (enumerate 0 (filter (\<lambda>p. \<not> isLocked p) (pieces st))))
       \<and> mset (map (\<lambda>p. (fixedPart p, isLocked p)) (pieces (scatterPieces random sortRandom st)))
           = mset (map (\<lambda>p. (fixedPart p, isLocked p)) (pieces st))
       \<and> allInGrid (scatterPieces random sortRandom st)
       \<and> scatterPieces random sortRandom st
           = st\<lparr>pieces := pieces (scatterPieces random sortRandom st)\<rparr>"
proof -
  let ?sh = "sortRandom (map (scatterOne (gridSize st) random)
                (enumerate 0 (filter (\<lambda>p. \<not> isLocked p) (pieces st))))"
  have un: "list_all (\<lambda>q. \<not> isLocked q) ?sh" using assms(2) by (rule shuffled_unlocked)
  have "filter isLocked ?sh = []" using un by (rule filter_none)
  then have 1: "filter isLocked (pieces (scatterPieces random sortRandom st)) = filter isLocked (pieces st)"
    by (simp add: pieces_scatterPieces)
  have "list_all isLocked (filter isLocked (pieces st))" by (simp add: list_all_iff)
  then have "lockedPrecede (filter isLocked (pieces st) @ ?sh)" using un by (rule lockedPrecede_append)
  then have 2: "lockedPrecede (pieces (scatterPieces random sortRandom st))"
    by (simp only: pieces_scatterPieces)
  note 3 = unlocked_after_scatter[OF assms(2), of random st]
  have 4: "mset (map (\<lambda>p. (fixedPart p, isLocked p)) (pieces (scatterPieces random sortRandom st)))
           = mset (map (\<lambda>p. (fixedPart p, isLocked p)) (pieces st))"
    by (rule scatter_keeps_mset[where f = "\<lambda>p. (fixedPart p, isLocked p)", OF assms(2)]) simp
  have 5: "allInGrid (scatterPieces random sortRandom st)"
    using assms(3,1,2) by (rule allInGrid_scatterPieces)
  from 1 2 3 4 5 scatterPieces_frame_eq[of random sortRandom st] show ?thesis by blast
qed

lemma lockedBoard_reached:
  "run [DragStart 350 50 0, DragMove 50 50, DragEnd] easyBoard = lockedBoard"
  by (simp add: lockedBoard_def fixture_defs handler_defs floor_eval Let_def)

text \<open>
  On the small board with rod A locked: the scatter moves rod B (two cells of play, draw
  1/2) to cell 1 and leaves rod A alone.
\<close>

theorem scatter_touches_only_unlocked_witness:
  "unitRandom (\<lambda>n. if n = 0 then 1 / 2 else 0) \<and> rearranges rev \<and> allInGrid lockedBoard
   \<and> pieces lockedBoard = [rodA\<lparr>currentX := 0, isLocked := True\<rparr>, rodB]
   \<and> pieces (scatterPieces (\<lambda>n. if n = 0 then 1 / 2 else 0) rev lockedBoard)
       = [rodA\<lparr>currentX := 0, isLocked := True\<rparr>, rodB\<lparr>currentX := 1\<rparr>]
   \<and> filter isLocked (pieces (scatterPieces (\<lambda>n. if n = 0 then 1 / 2 else 0) rev lockedBoard))
       = filter isLocked (pieces lockedBoard)
   \<and> lockedPrecede (pieces (scatterPieces (\<lambda>n. if n = 0 then 1 / 2 else 0) rev lockedBoard))
   \<and> allInGrid (scatterPieces (\<lambda>n. if n = 0 then 1 / 2 else 0) rev lockedBoard)"
proof -
  let ?r = "\<lambda>n::nat. if n = 0 then 1 / 2 else (0::rat)"
  have h1: "unitRandom ?r" by (simp add: unitRandom_def)
  have h2: "rearranges rev" by (simp add: rearranges_def)
  have p: "pieces lockedBoard = [rodA\<lparr>currentX := 0, isLocked := True\<rparr>, rodB]"
    by (simp add: lockedBoard_def)
  have g: "gridSize lockedBoard = 6"
    by (simp add: lockedBoard_def gridSize_def)
  have h3: "allInGrid lockedBoard"
    by (simp add: allInGrid_def p g) (simp add: inGrid_def fixture_defs)
  have e: "pieces (scatterPieces ?r rev lockedBoard)
       = [rodA\<lparr>currentX := 0, isLocked := True\<rparr>, rodB\<lparr>currentX := 1\<rparr>]"
    by (simp add: pieces_scatterPieces p g)
       (simp add: scatterOne_def Math_floor_def fixture_defs floor_eval)
  from scatter_touches_only_unlocked[OF h1 h2 h3] h1 h2 h3 p e show ?thesis by blast
qed

subsection \<open>C7: how a scatter places a piece\<close>

lemma nth_enumerate0: "k < length xs \<Longrightarrow> enumerate 0 xs ! k = (k, xs ! k)"
  by (simp add: nth_enumerate_eq)

lemma unlocked_in_pieces:
  "k < length (filter (\<lambda>p. \<not> isLocked p) ps) \<Longrightarrow> filter (\<lambda>p. \<not> isLocked p) ps ! k \<in> set ps"
  by (metis filter_is_subset nth_mem subsetD)

text \<open>
  Claim C7, as amended. A scatter with draws that are doubles in \<open>[0, 1)\<close>, from a state
  whose pieces are inside the grid, places the \<open>k\<close>-th unlocked piece with one draw per
  coordinate: \<open>currentX = floor (r * (gridSize - width + 1))\<close> and
  \<open>currentY = floor (r' * (gridSize - height + 1))\<close>, where \<open>r\<close> and \<open>r'\<close> are the draws
  \<open>2 * k\<close> and \<open>2 * k + 1\<close> and the products are those of doubles. The cell is inside the
  grid. The unlocked pieces of the result are exactly these placements, in some order.
  The home position is not consulted and nothing is resampled.
\<close>

theorem scatter_takes_one_sample:
  assumes "unitRandom random" and "rearranges sortRandom" and "allInGrid st"
    and "k < length (filter (\<lambda>p. \<not> isLocked p) (pieces st))"
    and "p = filter (\<lambda>p. \<not> isLocked p) (pieces st) ! k"
    and "x = \<lfloor>fl (random (2 * k) * of_int (gridSize st - width p + 1))\<rfloor>"
    and "y = \<lfloor>fl (random (2 * k + 1) * of_int (gridSize st - height p + 1))\<rfloor>"
  shows "p\<lparr>currentX := x, currentY := y\<rparr> \<in> set (pieces (scatterPieces random sortRandom st))
       \<and> 0 \<le> x \<and> x \<le> gridSize st - width p \<and> 0 \<le> y \<and> y \<le> gridSize st - height p
       \<and> mset (filter (\<lambda>p. \<not> isLocked p) (pieces (scatterPieces random sortRandom st)))
           = mset (map (\<lambda>(k, p).
                      p\<lparr>currentX := \<lfloor>fl (random (2 * k) * of_int (gridSize st - width p + 1))\<rfloor>,
                        currentY := \<lfloor>fl (random (2 * k + 1) * of_int (gridSize st - height p + 1))\<rfloor>\<rparr>)
                    (enumerate 0 (filter (\<lambda>p. \<not> isLocked p) (pieces st))))"
proof -
  let ?un = "filter (\<lambda>p. \<not> isLocked p) (pieces st)"
  let ?sc = "map (scatterOne (gridSize st) random) (enumerate 0 ?un)"
  have placed: "scatterOne (gridSize st) random (k, p) = p\<lparr>currentX := x, currentY := y\<rparr>"
    by (simp add: scatterOne_def Math_floor_def assms(6,7))
  have "?sc ! k = scatterOne (gridSize st) random (k, p)"
    using assms(4,5) by (simp add: nth_enumerate0)
  moreover have "k < length ?sc" using assms(4) by simp
  ultimately have "scatterOne (gridSize st) random (k, p) \<in> set ?sc" by (metis nth_mem)
  then have "scatterOne (gridSize st) random (k, p) \<in> set (sortRandom ?sc)"
    by (simp only: rearranges_set[OF assms(2)])
  then have 1: "p\<lparr>currentX := x, currentY := y\<rparr> \<in> set (pieces (scatterPieces random sortRandom st))"
    by (simp add: pieces_scatterPieces placed)
  have "p \<in> set (pieces st)" using assms(4) unfolding assms(5) by (rule unlocked_in_pieces)
  then have "inGrid (gridSize st) p" using assms(3) by (simp add: allInGrid_iff)
  then have "width p \<le> gridSize st \<and> height p \<le> gridSize st" by (rule inGrid_fits)
  then have "inGrid (gridSize st) (scatterOne (gridSize st) random (k, p))"
    using inGrid_scatterOne[OF assms(1)] by blast
  then have 2: "0 \<le> x \<and> x \<le> gridSize st - width p \<and> 0 \<le> y \<and> y \<le> gridSize st - height p"
    by (simp add: placed inGrid_def)
  from 1 2 unlocked_after_scatter[OF assms(2), of random st] show ?thesis by blast
qed

lemma draw_seven_tenths:
  "0 \<le> fl (7 / 10) \<and> fl (7 / 10) < 1 \<and> fl (fl (7 / 10)) = fl (7 / 10)
   \<and> fl (fl (7 / 10) * 10) = 7 \<and> fl (7 / 10) * 10 < 7"
  by code_simp

text \<open>
  On the Medium board, with the double nearest to 0.7 as the draw for rod C's row: ten
  rows of play, and the product of the doubles is 7, so the rod lands on row 7 (the exact
  product is below 7).
\<close>

theorem scatter_takes_one_sample_witness:
  "unitRandom (\<lambda>n. if n = 1 then fl (7 / 10) else 0) \<and> rearranges rev \<and> allInGrid mediumBoard
   \<and> 0 < length (filter (\<lambda>p. \<not> isLocked p) (pieces mediumBoard))
   \<and> rodC = filter (\<lambda>p. \<not> isLocked p) (pieces mediumBoard) ! 0
   \<and> 0 = \<lfloor>fl ((if (2 * 0 :: nat) = 1 then fl (7 / 10) else 0)
                * of_int (gridSize mediumBoard - width rodC + 1))\<rfloor>
   \<and> 7 = \<lfloor>fl ((if (2 * 0 + 1 :: nat) = 1 then fl (7 / 10) else 0)
                * of_int (gridSize mediumBoard - height rodC + 1))\<rfloor>
   \<and> rodC\<lparr>currentX := 0, currentY := 7\<rparr>
       \<in> set (pieces (scatterPieces (\<lambda>n. if n = 1 then fl (7 / 10) else 0) rev mediumBoard))"
proof -
  note d = draw_seven_tenths
  have h1: "unitRandom (\<lambda>n. if n = 1 then fl (7 / 10) else 0)"
    using d by (simp add: unitRandom_def)
  have h2: "rearranges rev" by (simp add: rearranges_def)
  have h3: "allInGrid mediumBoard"
    by (simp add: allInGrid_def inGrid_def gridSize_def fixture_defs2)
  have h4: "0 < length (filter (\<lambda>p. \<not> isLocked p) (pieces mediumBoard))"
    by (simp add: fixture_defs2)
  have h5: "rodC = filter (\<lambda>p. \<not> isLocked p) (pieces mediumBoard) ! 0"
    by (simp add: fixture_defs2)
  have h6: "0 = \<lfloor>fl ((if (2 * 0 :: nat) = 1 then fl (7 / 10) else 0)
                * of_int (gridSize mediumBoard - width rodC + 1))\<rfloor>"
    by (simp add: gridSize_def fixture_defs2)
  have h7: "7 = \<lfloor>fl ((if (2 * 0 + 1 :: nat) = 1 then fl (7 / 10) else 0)
                * of_int (gridSize mediumBoard - height rodC + 1))\<rfloor>"
    using d by (simp add: gridSize_def fixture_defs2)
  from scatter_takes_one_sample[OF h1 h2 h3 h4 h5 h6 h7] h1 h2 h3 h4 h5 h6 h7
  show ?thesis by blast
qed

lemma placeAvoidingHome_numeral:
  "placeAvoidingHome (numeral v) g random p k =
     (if candidate g random p k = (originalX p, originalY p)
      then placeAvoidingHome (pred_numeral v) g random p (Suc k)
      else candidate g random p k)"
  by (simp add: numeral_eq_Suc)

text \<open>
  Claim C7 as stated fails. On the small board the first two draws are 0 and all later
  ones 1/2 (with which the comparator of the sort returns 0 every time, so the sort keeps
  the order). The first candidate for rod A is its home cell (0, 0); the next candidate
  would be (3, 0), and that is where the Layout Shuffler's placement of the specification,
  which resamples, puts the rod. The scatter leaves rod A on its home cell.
\<close>

theorem scatter_accepts_home_at_once:
  "pieces (scatterPieces (\<lambda>n. if n < 2 then 0 else 1 / 2) (\<lambda>xs. xs) easyBoard)
     = [rodA\<lparr>currentX := 0, currentY := 0\<rparr>, rodB\<lparr>currentX := 1, currentY := 0\<rparr>]
   \<and> atHome (rodA\<lparr>currentX := 0, currentY := 0\<rparr>)
   \<and> candidate (gridSize easyBoard) (\<lambda>n. if n < 2 then 0 else 1 / 2) rodA 0 = (0, 0)
   \<and> candidate (gridSize easyBoard) (\<lambda>n. if n < 2 then 0 else 1 / 2) rodA 1 = (3, 0)
   \<and> shufflerPlace (gridSize easyBoard) (\<lambda>n. if n < 2 then 0 else 1 / 2) rodA = (3, 0)
   \<and> (currentX (rodA\<lparr>currentX := 0, currentY := 0\<rparr>), currentY (rodA\<lparr>currentX := 0, currentY := 0\<rparr>))
       \<noteq> shufflerPlace (gridSize easyBoard) (\<lambda>n. if n < 2 then 0 else 1 / 2) rodA"
proof -
  have c0: "candidate (gridSize easyBoard) (\<lambda>n. if n < 2 then 0 else 1 / 2) rodA 0 = (0, 0)"
    by (simp add: candidate_def fixture_defs gridSize_def Math_floor_def floor_eval)
  have c1: "candidate (gridSize easyBoard) (\<lambda>n. if n < 2 then 0 else 1 / 2) rodA 1 = (3, 0)"
    by (simp add: candidate_def fixture_defs gridSize_def Math_floor_def floor_eval)
  have home: "(originalX rodA, originalY rodA) = (0, 0)" by (simp add: rodA_def)
  have c1': "candidate (gridSize easyBoard) (\<lambda>n. if n < 2 then 0 else 1 / 2) rodA (Suc 0) = (3, 0)"
    using c1 by simp
  have sp: "shufflerPlace (gridSize easyBoard) (\<lambda>n. if n < 2 then 0 else 1 / 2) rodA = (3, 0)"
    by (simp add: shufflerPlace_def placeAvoidingHome_numeral c0 c1' home)
  have e: "pieces (scatterPieces (\<lambda>n. if n < 2 then 0 else 1 / 2) (\<lambda>xs. xs) easyBoard)
     = [rodA\<lparr>currentX := 0, currentY := 0\<rparr>, rodB\<lparr>currentX := 1, currentY := 0\<rparr>]"
    by (simp add: fixture_defs handler_defs floor_eval Let_def)
  have h: "atHome (rodA\<lparr>currentX := 0, currentY := 0\<rparr>)" by (simp add: atHome_def rodA_def)
  from e h c0 c1 sp show ?thesis by simp
qed

subsection \<open>C8: a reset during a drag\<close>

text \<open>
  Claim C8 says that a reset discards an active drag. \<open>initPuzzle\<close> writes the pieces, the
  solved flag, the hint and the loading flag, and neither \<open>draggingId\<close> nor the offset: the
  state after a reset carries the drag of the state before it, whatever the new pieces
  are. Only the first generation, on a freshly mounted component, starts without a drag.
  On the small board, rod A is grabbed and the puzzle is regenerated (the generator giving
  the same identifiers); the listeners stay installed, and the next pointer-move drags
  rod A of the new instance, which nobody grabbed, to cell 5.
\<close>

theorem reset_keeps_the_drag:
  "draggingId (initPuzzle shuffled st) = draggingId st
   \<and> offset_x (initPuzzle shuffled st) = offset_x st
   \<and> offset_y (initPuzzle shuffled st) = offset_y st
   \<and> draggingId (initPuzzle shuffled (mounted r)) = None
   \<and> draggingId (run [DragStart 350 50 0, Reset [rodA, rodB]] easyBoard) = Some ''rod-0-0''
   \<and> listening (run [DragStart 350 50 0, Reset [rodA, rodB]] easyBoard)
   \<and> pieces (run [DragStart 350 50 0, Reset [rodA, rodB]] easyBoard) = [rodA, rodB]
   \<and> pieces (run [DragStart 350 50 0, Reset [rodA, rodB], DragMove 550 50] easyBoard)
       = [rodA\<lparr>currentX := 5\<rparr>, rodB]"
  by (simp add: initPuzzle_def mounted_def) (simp add: fixture_defs handler_defs floor_eval Let_def)

subsection \<open>C9: one drag at a time\<close>

lemma at_most_one_with_id:
  "distinct (map f xs) \<Longrightarrow> length (filter (\<lambda>x. f x = d) xs) \<le> Suc 0"
proof (induction xs)
  case Nil
  then show ?case by simp
next
  case (Cons a xs)
  show ?case
  proof (cases "f a = d")
    case True
    then have "d \<notin> f ` set xs" using Cons.prems by auto
    then have "filter (\<lambda>x. f x = d) xs = []" by (auto simp: filter_empty_conv)
    with True show ?thesis by simp
  next
    case False
    with Cons show ?thesis by simp
  qed
qed

lemma at_most_one_dragging:
  assumes "idsDistinct st"
  shows "length (filter (isDragging st) (pieces st)) \<le> 1"
proof (cases "draggingId st")
  case None
  then show ?thesis by (simp add: isDragging_def)
next
  case (Some d)
  have "filter (isDragging st) (pieces st) = filter (\<lambda>p. pid p = d) (pieces st)"
    using Some by (auto simp: isDragging_def intro: filter_cong)
  then show ?thesis
    using at_most_one_with_id[of pid "pieces st" d] assms by (simp add: idsDistinct_def)
qed

lemma startDrag_accepted:
  assumes "\<not> isLocked c" "containerRef st = Some rect"
  shows "draggingId (startDrag cx cy c st) = Some (pid c)"
    and "pieces (startDrag cx cy c st) = filter (\<lambda>p. pid p \<noteq> pid c) (pieces st) @ [c]"
    and "offset_x (startDrag cx cy c st)
           = fl (fl (cx - rect_left rect) - fl (of_int (currentX c) * cellSize st))"
    and "offset_y (startDrag cx cy c st)
           = fl (fl (cy - rect_top rect) - fl (of_int (currentY c) * cellSize st))"
  using assms by (simp_all add: startDrag_def Let_def)

lemma find_never: "find (\<lambda>x. False) xs = None"
  by (induction xs) simp_all

lemma handleEnd_idle: "draggingId st = None \<Longrightarrow> handleEnd st = st"
  by (simp add: handleEnd_def find_never)

text \<open>
  Claim C9, as amended. With unique identifiers at most one piece of the sequence is the
  dragged one. A drag-start on an unlocked piece \<open>c\<close> is accepted whether or not a drag is
  active: \<open>c\<close> becomes the dragged piece, moves to the end of the sequence, and the grab
  offset is computed afresh (in the arithmetic of doubles, from the pointer, the
  container's origin and the piece's cell). A drag-start on a locked piece changes nothing. A drag-end
  with no drag active changes nothing, neither as a window event nor as a direct call of
  the handler.
\<close>

theorem drag_start_replaces_active_drag:
  assumes "idsDistinct st" and "\<not> isLocked c" and "containerRef st = Some rect"
    and "isLocked l" and "draggingId idle = None"
  shows "length (filter (isDragging st) (pieces st)) \<le> 1
       \<and> draggingId (startDrag clientX clientY c st) = Some (pid c)
       \<and> pieces (startDrag clientX clientY c st) = filter (\<lambda>p. pid p \<noteq> pid c) (pieces st) @ [c]
       \<and> offset_x (startDrag clientX clientY c st)
           = fl (fl (clientX - rect_left rect) - fl (of_int (currentX c) * cellSize st))
       \<and> offset_y (startDrag clientX clientY c st)
           = fl (fl (clientY - rect_top rect) - fl (of_int (currentY c) * cellSize st))
       \<and> startDrag clientX clientY l st = st
       \<and> pointerUp idle = idle \<and> handleEnd idle = idle"
proof -
  have "pointerUp idle = idle" using assms(5) by (simp add: pointerUp_def listening_def)
  moreover have "startDrag clientX clientY l st = st" using assms(4) by (simp add: startDrag_refused)
  ultimately show ?thesis
    using at_most_one_dragging[OF assms(1)] startDrag_accepted[OF assms(2,3)]
      handleEnd_idle[OF assms(5)] by simp
qed

text \<open>On the small board: rod B is pressed while rod A is being dragged.\<close>

theorem drag_start_replaces_active_drag_witness:
  "idsDistinct (startDrag 350 50 rodA easyBoard) \<and> \<not> isLocked rodB
   \<and> containerRef (startDrag 350 50 rodA easyBoard) = Some \<lparr>rect_left = 0, rect_top = 0\<rparr>
   \<and> isLocked (rodA\<lparr>isLocked := True\<rparr>) \<and> draggingId easyBoard = None
   \<and> draggingId (startDrag 350 50 rodA easyBoard) = Some (pid rodA)
   \<and> draggingId (startDrag 20 30 rodB (startDrag 350 50 rodA easyBoard)) = Some (pid rodB)
   \<and> pointerUp easyBoard = easyBoard"
proof -
  let ?s = "startDrag 350 50 rodA easyBoard"
  have h1: "idsDistinct ?s" by (simp add: idsDistinct_def fixture_defs handler_defs Let_def)
  have h2: "\<not> isLocked rodB" by (simp add: rodB_def)
  have h3: "containerRef ?s = Some \<lparr>rect_left = 0, rect_top = 0\<rparr>"
    by (simp add: fixture_defs handler_defs Let_def)
  have h4: "isLocked (rodA\<lparr>isLocked := True\<rparr>)" by simp
  have h5: "draggingId easyBoard = None" by (simp add: easyBoard_def)
  have h6: "draggingId ?s = Some (pid rodA)" by (simp add: fixture_defs handler_defs Let_def)
  from drag_start_replaces_active_drag[OF h1 h2 h3 h4 h5, of 20 30] h1 h2 h3 h4 h5 h6
  show ?thesis by blast
qed

text \<open>
  Claim C9 as stated fails. On the small board rod A is being dragged (offset 50, sequence
  B, A). A drag-start on rod B is not rejected: the dragged piece becomes rod B, the offset
  20 and the sequence A, B.
\<close>

theorem second_drag_start_is_not_rejected:
  "listening (startDrag 350 50 rodA easyBoard)
   \<and> draggingId (startDrag 350 50 rodA easyBoard) = Some ''rod-0-0''
   \<and> offset_x (startDrag 350 50 rodA easyBoard) = 50
   \<and> pieces (startDrag 350 50 rodA easyBoard) = [rodB, rodA]
   \<and> draggingId (step (DragStart 20 30 0) (startDrag 350 50 rodA easyBoard)) = Some ''rod-1-0''
   \<and> offset_x (step (DragStart 20 30 0) (startDrag 350 50 rodA easyBoard)) = 20
   \<and> pieces (step (DragStart 20 30 0) (startDrag 350 50 rodA easyBoard)) = [rodA, rodB]
   \<and> step (DragStart 20 30 0) (startDrag 350 50 rodA easyBoard) \<noteq> startDrag 350 50 rodA easyBoard"
proof -
  let ?s = "startDrag 350 50 rodA easyBoard"
  have 1: "listening ?s \<and> draggingId ?s = Some ''rod-0-0'' \<and> offset_x ?s = 50
      \<and> pieces ?s = [rodB, rodA]"
    by (simp add: fixture_defs handler_defs Let_def)
  have 2: "draggingId (step (DragStart 20 30 0) ?s) = Some ''rod-1-0''
      \<and> offset_x (step (DragStart 20 30 0) ?s) = 20
      \<and> pieces (step (DragStart 20 30 0) ?s) = [rodA, rodB]"
    by (simp add: fixture_defs handler_defs Let_def)
  have "draggingId (step (DragStart 20 30 0) ?s) \<noteq> draggingId ?s" using 1 2 by simp
  then have "step (DragStart 20 30 0) ?s \<noteq> ?s" by auto
  with 1 2 show ?thesis by simp
qed

end
